theory Spec2Isabelle
  imports Main "HOL-Library.AList"
begin

section \<open>Data model (src/models.py)\<close>

text \<open>
  The signaling coordinator keeps its state in Python dataclasses held in dictionaries.
  Each dataclass is a record here.  Field names follow the source, except where two
  dataclasses share one: the \<open>id\<close> of a user is \<open>uid\<close> and that of a room is \<open>rid\<close>, and
  the \<open>session_id\<close> and \<open>room_id\<close> of a recording session carry the prefix \<open>rec_\<close>.

  Wall-clock readings (\<open>datetime.now()\<close>) are passed in as integers counting microseconds,
  the resolution of a Python \<open>datetime\<close>; the identifier drawn by \<open>uuid.uuid4()\<close> when a
  room is created is passed in as a string.

  The external collaborators are kept abstract.  A WebSocket is its \<open>closed\<close> flag,
  the list of messages that \<open>send_str\<close> has accepted, and whether \<open>send_str\<close> raises.
  A message is the dictionary the source serialises with \<open>json.dumps\<close>: a relayed
  \<open>offer\<close>, \<open>answer\<close> or \<open>ice_candidate\<close> with its payload field and \<open>from_id\<close>, or an
  \<open>error\<close> with its text.  A peer-connection handle is its \<open>connectionState\<close> string and
  whether \<open>close()\<close> raises.

  The source signals a missing user or room with \<open>ValueError\<close> and a message naming it;
  the two are \<open>UserNotFound\<close> and \<open>RoomNotFound\<close> here.  \<open>StorageFailure\<close> is any
  exception of the storage collaborator.
\<close>

datatype ws_message =
  Relay (msg_type: string) (payload: "string option") (from_id: string)
| Error (message: string)

record ws_response =
  closed :: bool
  send_raises :: bool
  outbox :: "ws_message list"

datatype error = UserNotFound string | RoomNotFound string | StorageFailure

record peer_connection =
  connectionState :: string
  close_raises :: bool

record user =
  uid :: string
  websocket :: ws_response
  room_id :: "string option"
  peer_connections :: "(string \<times> peer_connection) list"
  joined_at :: int

record room =
  rid :: string
  users :: "string list"
  max_users :: int
  created_at :: int
  session_id :: string

record recording_session =
  rec_session_id :: string
  rec_room_id :: string
  started_at :: int
  ended_at :: "int option"
  files :: "string list"
  status :: string

text \<open>
  \<open>ConnectionManager._connections\<close> and \<open>RoomManager._rooms\<close> are dictionaries that the
  operations below read and write by key only; they are maps.  The room manager holds a
  reference to the connection manager and mutates the \<open>User\<close> objects stored there, so
  both dictionaries live in one state record.
\<close>

record app =
  connections :: "string \<rightharpoonup> user"
  rooms :: "string \<rightharpoonup> room"

definition init_app :: app where
  "init_app = \<lparr>connections = Map.empty, rooms = Map.empty\<rparr>"

text \<open>\<open>Room.is_full\<close>: \<open>len(self.users) >= self.max_users\<close>.\<close>

definition is_full :: "room \<Rightarrow> bool" where
  "is_full rm \<longleftrightarrow> max_users rm \<le> int (length (users rm))"

section \<open>Connection manager (src/managers/connection_manager.py)\<close>

definition add_connection :: "int \<Rightarrow> app \<Rightarrow> string \<Rightarrow> ws_response \<Rightarrow> user \<times> app" where
  "add_connection now s user_id ws =
     (let u = \<lparr>uid = user_id, websocket = ws, room_id = None,
               peer_connections = [], joined_at = now\<rparr>
      in (u, s\<lparr>connections := (connections s)(user_id \<mapsto> u)\<rparr>))"

definition get_user :: "app \<Rightarrow> string \<Rightarrow> user option" where
  "get_user s user_id = connections s user_id"

text \<open>
  \<open>cleanup_user_resources\<close> closes every handle (an exception is logged), clears the
  mapping and closes the sink if it is still open.  \<open>remove_connection\<close> deletes the user
  right after, so nothing of this is visible in the state that it returns.  It does not
  touch the member list of any room.
\<close>

definition cleanup_user_resources :: "user \<Rightarrow> user" where
  "cleanup_user_resources u =
     u\<lparr>peer_connections := [],
       websocket := (if closed (websocket u) then websocket u
                     else (websocket u)\<lparr>closed := True\<rparr>)\<rparr>"

definition remove_connection :: "app \<Rightarrow> string \<Rightarrow> app" where
  "remove_connection s user_id =
     (case connections s user_id of
        None \<Rightarrow> s
      | Some u \<Rightarrow>
          (let s1 = s\<lparr>connections := (connections s)(user_id \<mapsto> cleanup_user_resources u)\<rparr>
           in s1\<lparr>connections := (connections s1)(user_id := None)\<rparr>))"

section \<open>Room manager (src/managers/room_manager.py)\<close>

text \<open>\<open>create_room\<close> returns the room stored under the key, creating it first if absent.\<close>

definition create_room :: "int \<Rightarrow> string \<Rightarrow> app \<Rightarrow> string \<Rightarrow> int \<Rightarrow> room \<times> app" where
  "create_room now sid s r cap =
     (case rooms s r of
        None \<Rightarrow>
          (let rm = \<lparr>rid = r, users = [], max_users = cap, created_at = now, session_id = sid\<rparr>
           in (rm, s\<lparr>rooms := (rooms s)(r \<mapsto> rm)\<rparr>))
      | Some rm \<Rightarrow> (rm, s))"

text \<open>
  \<open>leave_room\<close>.  The early return fires when the user is unknown or \<open>not user.room_id\<close>
  holds.  \<open>user.room_id\<close> is an \<open>Optional[str]\<close>, and Python takes both \<open>None\<close> and the
  empty string for false.  \<open>list.remove\<close> deletes the first occurrence.
\<close>

definition leave_room :: "app \<Rightarrow> string \<Rightarrow> string option \<times> app" where
  "leave_room s user_id =
     (case connections s user_id of
        None \<Rightarrow> (None, s)
      | Some u \<Rightarrow>
          (case room_id u of
             None \<Rightarrow> (None, s)
           | Some r \<Rightarrow>
               (if r = [] then (None, s)
                else
                  (let cleared = s\<lparr>connections := (connections s)(user_id \<mapsto> u\<lparr>room_id := None\<rparr>)\<rparr>
                   in (case rooms s r of
                         None \<Rightarrow> (None, cleared)
                       | Some rm \<Rightarrow>
                           (if user_id \<in> set (users rm) then
                              (let us = remove1 user_id (users rm)
                               in (Some r,
                                   cleared\<lparr>rooms := (if us = [] then (rooms s)(r := None)
                                                      else (rooms s)(r \<mapsto> rm\<lparr>users := us\<rparr>))\<rparr>))
                            else (None, cleared)))))))"

text \<open>
  \<open>join_room\<close>.  The source fetches the room object once, before the capacity check,
  and keeps the reference across the call of \<open>leave_room\<close>.  \<open>leave_room\<close> mutates room
  objects in place and never replaces one, so after it the referenced object is the
  one stored under the key if the key is still present.  If the key is gone, the object
  was deleted from the dictionary because its member list became empty: the append
  then goes to an object that the registry no longer holds, and only the assignment to
  \<open>user.room_id\<close> is visible in the state.  The user object fetched at entry is the one
  stored under the key afterwards as well (\<open>leave_room\<close> removes no connection), so the
  model reads it back from the state.
  The capacity of a room created here is the configuration constant
  \<open>MAX_USERS_PER_ROOM\<close>, read from the environment; it is the parameter \<open>cfg\<close>.
\<close>

definition join_room :: "int \<Rightarrow> int \<Rightarrow> string \<Rightarrow> app \<Rightarrow> string \<Rightarrow> string \<Rightarrow> bool \<times> app" where
  "join_room cfg now sid s user_id r =
     (case connections s user_id of
        None \<Rightarrow> (False, s)
      | Some u0 \<Rightarrow>
          (let (rm, s1) = create_room now sid s r cfg
           in if is_full rm \<and> user_id \<notin> set (users rm) then (False, s1)
              else
                (let (old_room_id, s2) = leave_room s1 user_id
                 in (case connections s2 user_id of
                       None \<Rightarrow> (True, s2)
                     | Some u \<Rightarrow>
                         (case rooms s2 r of
                            None \<Rightarrow>
                              (True, s2\<lparr>connections :=
                                         (connections s2)(user_id \<mapsto> u\<lparr>room_id := Some r\<rparr>)\<rparr>)
                          | Some rm2 \<Rightarrow>
                              (if user_id \<notin> set (users rm2) then
                                 (True, s2\<lparr>rooms := (rooms s2)(r \<mapsto> rm2\<lparr>users := users rm2 @ [user_id]\<rparr>),
                                            connections :=
                                              (connections s2)(user_id \<mapsto> u\<lparr>room_id := Some r\<rparr>)\<rparr>)
                               else (True, s2)))))))"

definition get_room :: "app \<Rightarrow> string \<Rightarrow> room option" where
  "get_room s r = rooms s r"

definition get_room_users :: "app \<Rightarrow> string \<Rightarrow> string list" where
  "get_room_users s r = (case get_room s r of None \<Rightarrow> [] | Some rm \<Rightarrow> users rm)"

definition get_all_rooms :: "app \<Rightarrow> (string \<rightharpoonup> room)" where
  "get_all_rooms s = rooms s"

text \<open>
  \<open>cleanup_room\<close> walks a copy of the member list, calling \<open>leave_room\<close> for each member,
  and then deletes the key if it is still present.
\<close>

definition cleanup_room :: "app \<Rightarrow> string \<Rightarrow> bool \<times> app" where
  "cleanup_room s r =
     (case get_room s r of
        None \<Rightarrow> (False, s)
      | Some rm \<Rightarrow>
          (let s1 = fold (\<lambda>user_id st. snd (leave_room st user_id)) (users rm) s
           in if rooms s1 r \<noteq> None then (True, s1\<lparr>rooms := (rooms s1)(r := None)\<rparr>)
              else (False, s1)))"

section \<open>WebRTC manager (src/managers/webrtc_manager.py)\<close>

text \<open>
  \<open>User.peer_connections\<close> is a dictionary whose keys are iterated; it is an association
  list in insertion order, written with \<open>AList.update\<close> and \<open>AList.delete\<close> and read with
  \<open>map_of\<close>.  The handle that the engine constructs is the parameter \<open>pc\<close>.  The callbacks
  that \<open>_setup_peer_connection_handlers\<close> registers on the handle run later, as tasks of
  their own, and are not part of these functions.
\<close>

definition create_peer_connection ::
  "peer_connection \<Rightarrow> app \<Rightarrow> string \<Rightarrow> string \<Rightarrow> error + (peer_connection \<times> app)" where
  "create_peer_connection pc s user_id target_id =
     (case get_user s user_id of
        None \<Rightarrow> Inl (UserNotFound user_id)
      | Some u \<Rightarrow>
          (case map_of (peer_connections u) target_id of
             Some existing \<Rightarrow> Inr (existing, s)
           | None \<Rightarrow>
               Inr (pc, s\<lparr>connections := (connections s)(user_id \<mapsto>
                                u\<lparr>peer_connections := AList.update target_id pc (peer_connections u)\<rparr>)\<rparr>)))"

text \<open>
  \<open>send_str\<close> on a sink: \<open>None\<close> when it raises, the sink with the message appended
  otherwise.
\<close>

definition send_str :: "ws_response \<Rightarrow> ws_message \<Rightarrow> ws_response option" where
  "send_str ws m = (if send_raises ws then None else Some (ws\<lparr>outbox := outbox ws @ [m]\<rparr>))"

text \<open>
  The three relay functions.  Each returns early when the target is unknown or its sink is
  closed; an exception of the send is caught and logged.  The payload dictionary maps
  field names to values; \<open>dict.get\<close> is application of the map.
\<close>

definition handle_offer :: "app \<Rightarrow> string \<Rightarrow> string \<Rightarrow> (string \<rightharpoonup> string) \<Rightarrow> app" where
  "handle_offer s user_id target_id offer_data =
     (case get_user s target_id of
        None \<Rightarrow> s
      | Some target_user \<Rightarrow>
          (if closed (websocket target_user) then s
           else
             (case send_str (websocket target_user) (Relay ''offer'' (offer_data ''sdp'') user_id) of
                None \<Rightarrow> s
              | Some ws \<Rightarrow>
                  s\<lparr>connections := (connections s)(target_id \<mapsto> target_user\<lparr>websocket := ws\<rparr>)\<rparr>)))"

definition handle_answer :: "app \<Rightarrow> string \<Rightarrow> string \<Rightarrow> (string \<rightharpoonup> string) \<Rightarrow> app" where
  "handle_answer s user_id target_id answer_data =
     (case get_user s target_id of
        None \<Rightarrow> s
      | Some target_user \<Rightarrow>
          (if closed (websocket target_user) then s
           else
             (case send_str (websocket target_user) (Relay ''answer'' (answer_data ''sdp'') user_id) of
                None \<Rightarrow> s
              | Some ws \<Rightarrow>
                  s\<lparr>connections := (connections s)(target_id \<mapsto> target_user\<lparr>websocket := ws\<rparr>)\<rparr>)))"

definition handle_ice_candidate :: "app \<Rightarrow> string \<Rightarrow> string \<Rightarrow> (string \<rightharpoonup> string) \<Rightarrow> app" where
  "handle_ice_candidate s user_id target_id candidate_data =
     (case get_user s target_id of
        None \<Rightarrow> s
      | Some target_user \<Rightarrow>
          (if closed (websocket target_user) then s
           else
             (case send_str (websocket target_user)
                     (Relay ''ice_candidate'' (candidate_data ''candidate'') user_id) of
                None \<Rightarrow> s
              | Some ws \<Rightarrow>
                  s\<lparr>connections := (connections s)(target_id \<mapsto> target_user\<lparr>websocket := ws\<rparr>)\<rparr>)))"

text \<open>
  \<open>cleanup_peer_connection\<close> runs the same guarded block twice, first on the edge from
  \<open>user_id\<close> to \<open>target_id\<close> and then on the mirror edge.  The block is \<open>close_and_remove\<close>:
  if the owner is known and holds a handle for the peer, the handle is closed unless its
  state is already \<open>closed\<close> or \<open>failed\<close>, and the entry is deleted.  When \<open>close()\<close> raises,
  the exception is caught after the close and before the \<open>del\<close>, so the entry stays.
\<close>

definition close_and_remove :: "app \<Rightarrow> string \<Rightarrow> string \<Rightarrow> app" where
  "close_and_remove s owner peer =
     (case get_user s owner of
        None \<Rightarrow> s
      | Some u \<Rightarrow>
          (case map_of (peer_connections u) peer of
             None \<Rightarrow> s
           | Some pc \<Rightarrow>
               (if connectionState pc \<notin> set [''closed'', ''failed''] \<and> close_raises pc then s
                else s\<lparr>connections := (connections s)(owner \<mapsto>
                          u\<lparr>peer_connections := AList.delete peer (peer_connections u)\<rparr>)\<rparr>)))"

definition cleanup_peer_connection :: "app \<Rightarrow> string \<Rightarrow> string \<Rightarrow> app" where
  "cleanup_peer_connection s user_id target_id =
     close_and_remove (close_and_remove s user_id target_id) target_id user_id"

text \<open>\<open>cleanup_all_user_connections\<close> walks a snapshot of the user's keys.\<close>

definition cleanup_all_user_connections :: "app \<Rightarrow> string \<Rightarrow> app" where
  "cleanup_all_user_connections s user_id =
     (case get_user s user_id of
        None \<Rightarrow> s
      | Some u \<Rightarrow>
          fold (\<lambda>target_id st. cleanup_peer_connection st user_id target_id)
               (map fst (peer_connections u)) s)"

section \<open>Message router, signaling part (src/video_app.py)\<close>

text \<open>
  \<open>send_to_user\<close> returns false when the user is unknown, the sink is closed or the send
  raises.  \<open>send_error\<close> discards that result.
\<close>

definition send_to_user :: "app \<Rightarrow> string \<Rightarrow> ws_message \<Rightarrow> bool \<times> app" where
  "send_to_user s user_id m =
     (case get_user s user_id of
        None \<Rightarrow> (False, s)
      | Some u \<Rightarrow>
          (if closed (websocket u) then (False, s)
           else
             (case send_str (websocket u) m of
                None \<Rightarrow> (False, s)
              | Some ws \<Rightarrow>
                  (True, s\<lparr>connections := (connections s)(user_id \<mapsto> u\<lparr>websocket := ws\<rparr>)\<rparr>))))"

definition send_error :: "app \<Rightarrow> string \<Rightarrow> string \<Rightarrow> app" where
  "send_error s user_id error_message = snd (send_to_user s user_id (Error error_message))"

text \<open>
  The three signaling handlers of the router.  \<open>not target_id\<close> holds for a missing key and
  for the empty string.  The router's \<open>handle_ice_candidate\<close> shares its name with the
  function of the WebRTC manager and is \<open>handle_ice_candidate_msg\<close> here.
\<close>

definition handle_webrtc_offer :: "app \<Rightarrow> string \<Rightarrow> (string \<rightharpoonup> string) \<Rightarrow> app" where
  "handle_webrtc_offer s user_id data =
     (case data ''target_id'' of
        None \<Rightarrow> send_error s user_id ''Missing target_id in offer''
      | Some target_id \<Rightarrow>
          (if target_id = [] then send_error s user_id ''Missing target_id in offer''
           else handle_offer s user_id target_id data))"

definition handle_webrtc_answer :: "app \<Rightarrow> string \<Rightarrow> (string \<rightharpoonup> string) \<Rightarrow> app" where
  "handle_webrtc_answer s user_id data =
     (case data ''target_id'' of
        None \<Rightarrow> send_error s user_id ''Missing target_id in answer''
      | Some target_id \<Rightarrow>
          (if target_id = [] then send_error s user_id ''Missing target_id in answer''
           else handle_answer s user_id target_id data))"

definition handle_ice_candidate_msg :: "app \<Rightarrow> string \<Rightarrow> (string \<rightharpoonup> string) \<Rightarrow> app" where
  "handle_ice_candidate_msg s user_id data =
     (case data ''target_id'' of
        None \<Rightarrow> send_error s user_id ''Missing target_id in ICE candidate''
      | Some target_id \<Rightarrow>
          (if target_id = [] then send_error s user_id ''Missing target_id in ICE candidate''
           else handle_ice_candidate s user_id target_id data))"

section \<open>Recording manager (src/managers/recording_manager.py)\<close>

text \<open>
  \<open>_active_recordings\<close> is keyed by room identifier and \<open>_recording_history\<close> by session
  (folder) identifier.  Both are association lists in insertion order, since the purge
  iterates the history.  The room lookup goes to the room manager, so the operations that
  need it take the registry state as well.
\<close>

record rec_state =
  active_recordings :: "(string \<times> recording_session) list"
  recording_history :: "(string \<times> recording_session) list"

definition init_rec :: rec_state where
  "init_rec = \<lparr>active_recordings = [], recording_history = []\<rparr>"

text \<open>
  \<open>RecordingSession.duration\<close>: the difference of the two timestamps when the end is set.
  A \<open>datetime\<close> is always true in a condition.  The source converts the difference to
  seconds as a float; here it stays in microseconds.
\<close>

definition duration :: "recording_session \<Rightarrow> int option" where
  "duration rc = (case ended_at rc of None \<Rightarrow> None | Some e \<Rightarrow> Some (e - started_at rc))"

definition is_active :: "recording_session \<Rightarrow> bool" where
  "is_active rc \<longleftrightarrow> status rc = ''active'' \<and> ended_at rc = None"

text \<open>
  \<open>start_recording\<close>.  The new entry is stored before the session folder is created; when
  the folder creation raises (\<open>folder_ok\<close> false) the exception leaves the entry behind.
\<close>

definition start_recording ::
  "int \<Rightarrow> bool \<Rightarrow> app \<Rightarrow> rec_state \<Rightarrow> string \<Rightarrow> (error + string) \<times> rec_state" where
  "start_recording now folder_ok s st r =
     (case get_room s r of
        None \<Rightarrow> (Inl (RoomNotFound r), st)
      | Some rm \<Rightarrow>
          (case map_of (active_recordings st) r of
             Some existing_session \<Rightarrow> (Inr (rec_session_id existing_session), st)
           | None \<Rightarrow>
               (let recording = \<lparr>rec_session_id = session_id rm, rec_room_id = r,
                                  started_at = now, ended_at = None, files = [],
                                  status = ''active''\<rparr>;
                    st1 = st\<lparr>active_recordings := AList.update r recording (active_recordings st)\<rparr>
                in if folder_ok then (Inr (session_id rm), st1)
                   else (Inl StorageFailure, st1))))"

definition stop_recording :: "int \<Rightarrow> rec_state \<Rightarrow> string \<Rightarrow> recording_session option \<times> rec_state" where
  "stop_recording now st r =
     (case map_of (active_recordings st) r of
        None \<Rightarrow> (None, st)
      | Some rc \<Rightarrow>
          (let recording = rc\<lparr>ended_at := Some now, status := ''stopped''\<rparr>
           in (Some recording,
               st\<lparr>active_recordings := AList.delete r (active_recordings st),
                  recording_history :=
                    AList.update (rec_session_id recording) recording (recording_history st)\<rparr>)))"

definition force_stop_recording ::
  "int \<Rightarrow> rec_state \<Rightarrow> string \<Rightarrow> string \<Rightarrow> recording_session option \<times> rec_state" where
  "force_stop_recording now st r reason =
     (case map_of (active_recordings st) r of
        None \<Rightarrow> (None, st)
      | Some rc \<Rightarrow>
          (let recording = rc\<lparr>ended_at := Some now, status := ''stopped ('' @ reason @ '')''\<rparr>
           in (Some recording,
               st\<lparr>active_recordings := AList.delete r (active_recordings st),
                  recording_history :=
                    AList.update (rec_session_id recording) recording (recording_history st)\<rparr>)))"

definition cleanup_room_recording :: "int \<Rightarrow> rec_state \<Rightarrow> string \<Rightarrow> bool \<times> rec_state" where
  "cleanup_room_recording now st r =
     (if map_of (active_recordings st) r \<noteq> None
      then (True, snd (force_stop_recording now st r ''room deleted''))
      else (False, st))"

definition is_room_recording :: "rec_state \<Rightarrow> string \<Rightarrow> bool" where
  "is_room_recording st r \<longleftrightarrow> map_of (active_recordings st) r \<noteq> None"

text \<open>
  \<open>cleanup_old_recordings\<close>: collect the keys whose end timestamp lies before the cutoff,
  then delete them.  Timestamps are in microseconds, so the cutoff is
  \<open>now - days_old * 24 * 60 * 60 * 1000000\<close>.
\<close>

definition cleanup_old_recordings :: "int \<Rightarrow> rec_state \<Rightarrow> int \<Rightarrow> int \<times> rec_state" where
  "cleanup_old_recordings now st days_old =
     (if days_old \<le> 0 then (0, st)
      else
        (let cutoff_time = now - days_old * 24 * 60 * 60 * 1000000;
             sessions_to_remove =
               map fst (filter (\<lambda>(sid, rc). case ended_at rc of
                                               None \<Rightarrow> False
                                             | Some e \<Rightarrow> e < cutoff_time)
                               (recording_history st))
         in (int (length sessions_to_remove),
             st\<lparr>recording_history := fold AList.delete sessions_to_remove (recording_history st)\<rparr>)))"

section \<open>Properties of the registries\<close>

text \<open>
  A state is consistent when, for every registered session, the room reference is set to
  a room exactly if that room is in the registry and lists the session.
\<close>

definition consistent :: "app \<Rightarrow> bool" where
  "consistent s \<longleftrightarrow>
     (\<forall>user_id u r. connections s user_id = Some u \<longrightarrow>
        (room_id u = Some r \<longleftrightarrow> (\<exists>rm. rooms s r = Some rm \<and> user_id \<in> set (users rm))))"

text \<open>
  The invariant used to prove consistency adds that no member list has a duplicate and
  that no registered session refers to the room named by the empty string.
\<close>

definition well_formed :: "app \<Rightarrow> bool" where
  "well_formed s \<longleftrightarrow> consistent s
     \<and> (\<forall>r rm. rooms s r = Some rm \<longrightarrow> distinct (users rm))
     \<and> (\<forall>user_id u. connections s user_id = Some u \<longrightarrow> room_id u \<noteq> Some [])"

definition roomless :: "app \<Rightarrow> string \<Rightarrow> bool" where
  "roomless s v \<longleftrightarrow> (\<forall>u. connections s v = Some u \<longrightarrow> room_id u = None)"

abbreviation leave_all :: "string list \<Rightarrow> app \<Rightarrow> app" where
  "leave_all \<equiv> fold (\<lambda>user_id st. snd (leave_room st user_id))"

text \<open>Every room holds at most as many members as its capacity.\<close>

definition within_capacity :: "app \<Rightarrow> bool" where
  "within_capacity s \<longleftrightarrow>
     (\<forall>r rm. rooms s r = Some rm \<longrightarrow> int (length (users rm)) \<le> max_users rm)"

text \<open>
  The states reachable from the empty registries by the operations of the two registries,
  with any arguments.  A room created directly gets a capacity that is not negative.
\<close>

inductive reachable :: "int \<Rightarrow> app \<Rightarrow> bool" for cfg :: int where
  init: "reachable cfg init_app"
| register: "reachable cfg s \<Longrightarrow> reachable cfg (snd (add_connection now s user_id ws))"
| unregister: "reachable cfg s \<Longrightarrow> reachable cfg (remove_connection s user_id)"
| get_or_create: "reachable cfg s \<Longrightarrow> 0 \<le> cap \<Longrightarrow> reachable cfg (snd (create_room now sid s r cap))"
| join: "reachable cfg s \<Longrightarrow> reachable cfg (snd (join_room cfg now sid s user_id r))"
| leave: "reachable cfg s \<Longrightarrow> reachable cfg (snd (leave_room s user_id))"
| force_cleanup: "reachable cfg s \<Longrightarrow> reachable cfg (snd (cleanup_room s r))"

text \<open>
  The same with three restrictions: the identifier being registered is in no member list,
  the room joined is not named by the empty string, and the joining session is not the
  only member of the room it joins.
\<close>

inductive reachable_guarded :: "int \<Rightarrow> app \<Rightarrow> bool" for cfg :: int where
  init: "reachable_guarded cfg init_app"
| register:
    "reachable_guarded cfg s
       \<Longrightarrow> \<forall>r rm. rooms s r = Some rm \<longrightarrow> user_id \<notin> set (users rm)
       \<Longrightarrow> reachable_guarded cfg (snd (add_connection now s user_id ws))"
| unregister: "reachable_guarded cfg s \<Longrightarrow> reachable_guarded cfg (remove_connection s user_id)"
| get_or_create:
    "reachable_guarded cfg s \<Longrightarrow> reachable_guarded cfg (snd (create_room now sid s r cap))"
| join:
    "reachable_guarded cfg s
       \<Longrightarrow> r \<noteq> []
       \<Longrightarrow> \<forall>rm. rooms s r = Some rm \<longrightarrow> users rm \<noteq> [user_id]
       \<Longrightarrow> reachable_guarded cfg (snd (join_room cfg now sid s user_id r))"
| leave: "reachable_guarded cfg s \<Longrightarrow> reachable_guarded cfg (snd (leave_room s user_id))"
| force_cleanup: "reachable_guarded cfg s \<Longrightarrow> reachable_guarded cfg (snd (cleanup_room s r))"

text \<open>A session holds a link to a peer when its peer-connection mapping has the peer as a key.\<close>

definition holds_link :: "app \<Rightarrow> string \<Rightarrow> string \<Rightarrow> bool" where
  "holds_link s owner peer \<longleftrightarrow>
     (\<exists>u. connections s owner = Some u \<and> map_of (peer_connections u) peer \<noteq> None)"

text \<open>
  Every stored handle can be closed: it is already \<open>closed\<close> or \<open>failed\<close>, or its \<open>close()\<close>
  does not raise.
\<close>

definition closes_cleanly :: "app \<Rightarrow> bool" where
  "closes_cleanly s \<longleftrightarrow>
     (\<forall>owner u peer pc. connections s owner = Some u \<longrightarrow> map_of (peer_connections u) peer = Some pc
        \<longrightarrow> connectionState pc \<in> set [''closed'', ''failed''] \<or> \<not> close_raises pc)"

abbreviation cleanup_links :: "string \<Rightarrow> string list \<Rightarrow> app \<Rightarrow> app" where
  "cleanup_links user_id \<equiv> fold (\<lambda>target_id st. cleanup_peer_connection st user_id target_id)"

text \<open>Concrete states used below.\<close>

definition open_ws :: ws_response where
  "open_ws = \<lparr>closed = False, send_raises = False, outbox = []\<rparr>"

definition joined_state :: app where
  "joined_state =
     snd (join_room 5 1 ''F1'' (snd (add_connection 0 init_app ''S'' open_ws)) ''S'' ''R'')"

definition duplicate_register_state :: app where
  "duplicate_register_state = snd (add_connection 2 joined_state ''S'' open_ws)"

definition full_state :: app where
  "full_state =
     snd (join_room 1 1 ''F1''
            (snd (add_connection 0 (snd (add_connection 0 init_app ''S'' open_ws)) ''T'' open_ws))
            ''S'' ''R'')"

definition full_room :: room where
  "full_room = \<lparr>rid = ''R'', users = [''S''], max_users = 1, created_at = 1, session_id = ''F1''\<rparr>"

definition closed_ws :: ws_response where
  "closed_ws = \<lparr>closed = True, send_raises = False, outbox = []\<rparr>"

definition new_pc :: peer_connection where
  "new_pc = \<lparr>connectionState = ''new'', close_raises = False\<rparr>"

definition two_users :: app where
  "two_users = snd (add_connection 0 (snd (add_connection 0 init_app ''X'' open_ws)) ''Y'' open_ws)"

definition closed_target_state :: app where
  "closed_target_state =
     snd (add_connection 0 (snd (add_connection 0 init_app ''X'' open_ws)) ''Y'' closed_ws)"

definition link :: "app \<Rightarrow> string \<Rightarrow> string \<Rightarrow> app" where
  "link s user_id target_id =
     (case create_peer_connection new_pc s user_id target_id of Inl e \<Rightarrow> s | Inr (pc, s1) \<Rightarrow> s1)"

definition one_way_state :: app where
  "one_way_state = link two_users ''Y'' ''X''"

definition linked_state :: app where
  "linked_state = link (link two_users ''X'' ''Y'') ''Y'' ''X''"

section \<open>Properties of the recording manager\<close>

text \<open>
  The states of the recording manager reachable from the empty one by its operations, with
  any arguments.
\<close>

inductive rec_reachable :: "rec_state \<Rightarrow> bool" where
  init: "rec_reachable init_rec"
| start: "rec_reachable st \<Longrightarrow> rec_reachable (snd (start_recording now folder_ok s st r))"
| stop: "rec_reachable st \<Longrightarrow> rec_reachable (snd (stop_recording now st r))"
| force_stop: "rec_reachable st \<Longrightarrow> rec_reachable (snd (force_stop_recording now st r reason))"
| room_deleted: "rec_reachable st \<Longrightarrow> rec_reachable (snd (cleanup_room_recording now st r))"
| purge: "rec_reachable st \<Longrightarrow> rec_reachable (snd (cleanup_old_recordings now st days_old))"

text \<open>
  The active set holds one entry per key, and each entry is stored under the identifier of
  the room it records.
\<close>

definition keyed_by_room :: "rec_state \<Rightarrow> bool" where
  "keyed_by_room st \<longleftrightarrow>
     distinct (map fst (active_recordings st))
     \<and> (\<forall>k rc. (k, rc) \<in> set (active_recordings st) \<longrightarrow> rec_room_id rc = k)"

text \<open>Sequences of start, stop and forceStop.\<close>

datatype rec_op =
  Start int bool app string
| Stop int string
| ForceStop int string string

fun rec_exec :: "rec_state \<Rightarrow> rec_op \<Rightarrow> rec_state" where
  "rec_exec st (Start now folder_ok s r) = snd (start_recording now folder_ok s st r)"
| "rec_exec st (Stop now r) = snd (stop_recording now st r)"
| "rec_exec st (ForceStop now r reason) = snd (force_stop_recording now st r reason)"

definition rec_run :: "rec_state \<Rightarrow> rec_op list \<Rightarrow> rec_state" where
  "rec_run st ops = foldl rec_exec st ops"

definition history_keys :: "rec_state \<Rightarrow> string set" where
  "history_keys st = fst ` set (recording_history st)"

text \<open>
  An operation records a folder when it starts a recording of a room with that folder
  identifier; a folder is idle when no active recording carries it.
\<close>

fun records_folder :: "string \<Rightarrow> rec_op \<Rightarrow> bool" where
  "records_folder fid (Start now folder_ok s r) =
     (case get_room s r of None \<Rightarrow> False | Some rm \<Rightarrow> session_id rm = fid)"
| "records_folder fid (Stop now r) = False"
| "records_folder fid (ForceStop now r reason) = False"

definition folder_idle :: "string \<Rightarrow> rec_state \<Rightarrow> bool" where
  "folder_idle fid st \<longleftrightarrow> fid \<notin> set (map (rec_session_id \<circ> snd) (active_recordings st))"

text \<open>Concrete recording states used below.\<close>

definition recording_state :: rec_state where
  "recording_state = snd (start_recording 10 True joined_state init_rec ''R'')"

definition active_rec :: recording_session where
  "active_rec = \<lparr>rec_session_id = ''F1'', rec_room_id = ''R'', started_at = 10, ended_at = None,
                  files = [], status = ''active''\<rparr>"

definition stopped_rec :: recording_session where
  "stopped_rec = active_rec\<lparr>ended_at := Some 15, status := ''stopped''\<rparr>"

definition stopped_state :: rec_state where
  "stopped_state = snd (stop_recording 15 recording_state ''R'')"

definition two_room_state :: app where
  "two_room_state =
     snd (join_room 5 2 ''F2'' (snd (add_connection 0 joined_state ''T'' open_ws)) ''T'' ''Q'')"

definition restopped_state :: rec_state where
  "restopped_state = rec_run stopped_state [Start 20 True joined_state ''R'', Stop 30 ''R'']"

section \<open>Re-joining and leaving\<close>

lemmas room_ops = join_room_def create_room_def leave_room_def add_connection_def
  init_app_def is_full_def cleanup_room_def get_room_def remove_connection_def

text \<open>
  Claim C2: a join of a registered session into the room it is already a member of
  returns true and leaves the room in place with the same member list in the same order,
  also when the session is the only member.

  The code does not do this.  \<open>join_room\<close> calls \<open>leave_room\<close> before it tests membership,
  so the member is removed first.  When it is the only member, the room is deleted from
  the registry; the join still returns true and sets the session's room reference, which
  then names a room that does not exist.
\<close>

theorem rejoin_sole_member_deletes_room:
  "(let s1 = snd (add_connection 0 init_app ''S'' open_ws);
        s2 = snd (join_room 5 1 ''F1'' s1 ''S'' ''R'');
        (ok, s3) = join_room 5 2 ''F2'' s2 ''S'' ''R''
    in map_option users (rooms s2 ''R'') = Some [''S'']
       \<and> ok \<and> rooms s3 ''R'' = None
       \<and> map_option room_id (connections s3 ''S'') = Some (Some ''R''))"
  by (simp add: room_ops Let_def)

text \<open>With a second member present the room survives, but the re-joining member moves to the end.\<close>

theorem rejoin_moves_member_to_end:
  "(let s1 = snd (add_connection 0 init_app ''S'' open_ws);
        s2 = snd (add_connection 0 s1 ''T'' open_ws);
        s3 = snd (join_room 5 1 ''F1'' s2 ''S'' ''R'');
        s4 = snd (join_room 5 2 ''F2'' s3 ''T'' ''R'');
        (ok, s5) = join_room 5 3 ''F3'' s4 ''S'' ''R''
    in map_option users (rooms s4 ''R'') = Some [''S'', ''T'']
       \<and> ok \<and> map_option users (rooms s5 ''R'') = Some [''T'', ''S''])"
  by (simp add: room_ops Let_def)

text \<open>
  Claim C9: leave removes the session from its current room and returns that room's
  identifier; an emptied room is deleted and absent from the all-rooms snapshot; a session
  in no room gets none.

  The code misses the room whose identifier is the empty string.  \<open>join_room\<close> accepts it,
  but \<open>leave_room\<close> tests \<open>not user.room_id\<close>, which is true for the empty string, and returns
  none without touching the room: the session stays in the member list.
\<close>

theorem leave_empty_named_room_keeps_member:
  "(let s1 = snd (add_connection 0 init_app ''S'' open_ws);
        (ok, s2) = join_room 5 1 ''F1'' s1 ''S'' '''';
        (left, s3) = leave_room s2 ''S''
    in ok \<and> map_option users (rooms s2 '''') = Some [''S'']
       \<and> map_option room_id (connections s2 ''S'') = Some (Some '''')
       \<and> left = None \<and> s3 = s2
       \<and> map_option users (get_all_rooms s3 '''') = Some [''S''])"
  by (simp add: room_ops Let_def get_all_rooms_def)

text \<open>
  Claim C10: for a registered session whose room reference names a room that is absent,
  or a room that does not list the session, leave clears the reference, returns none and
  removes no room.

  The same test lets the empty-string reference through uncleared.  The state is reached
  by joining the room named by the empty string and force-cleaning that room.
\<close>

theorem leave_dangling_empty_ref_not_cleared:
  "(let s1 = snd (add_connection 0 init_app ''S'' open_ws);
        s2 = snd (join_room 5 1 ''F1'' s1 ''S'' '''');
        (deleted, s3) = cleanup_room s2 '''';
        (left, s4) = leave_room s3 ''S''
    in deleted \<and> rooms s3 '''' = None
       \<and> map_option room_id (connections s3 ''S'') = Some (Some '''')
       \<and> left = None
       \<and> map_option room_id (connections s4 ''S'') = Some (Some ''''))"
  by (simp add: room_ops Let_def)

section \<open>Room references and member lists\<close>

lemma consistentD1:
  "consistent s \<Longrightarrow> connections s v = Some u \<Longrightarrow> room_id u = Some r
     \<Longrightarrow> \<exists>rm. rooms s r = Some rm \<and> v \<in> set (users rm)"
  unfolding consistent_def by blast

lemma consistentD2:
  "consistent s \<Longrightarrow> connections s v = Some u \<Longrightarrow> rooms s r = Some rm
     \<Longrightarrow> v \<in> set (users rm) \<Longrightarrow> room_id u = Some r"
  unfolding consistent_def by blast

lemma wf_consistent: "well_formed s \<Longrightarrow> consistent s" by (simp add: well_formed_def)
lemma wf_distinct: "well_formed s \<Longrightarrow> rooms s r = Some rm \<Longrightarrow> distinct (users rm)" by (simp add: well_formed_def)
lemma wf_nonempty: "well_formed s \<Longrightarrow> connections s v = Some u \<Longrightarrow> room_id u \<noteq> Some []" by (simp add: well_formed_def)

lemma leave_room_connections:
  "connections (snd (leave_room s user_id)) =
     (case connections s user_id of
        None \<Rightarrow> connections s
      | Some u \<Rightarrow>
          (case room_id u of
             None \<Rightarrow> connections s
           | Some r \<Rightarrow> if r = [] then connections s
                       else (connections s)(user_id \<mapsto> u\<lparr>room_id := None\<rparr>)))"
  by (simp add: leave_room_def Let_def split: option.splits)

lemma leave_room_rooms:
  "rooms (snd (leave_room s user_id)) =
     (case connections s user_id of
        None \<Rightarrow> rooms s
      | Some u \<Rightarrow>
          (case room_id u of
             None \<Rightarrow> rooms s
           | Some r \<Rightarrow>
               if r = [] then rooms s
               else (case rooms s r of
                       None \<Rightarrow> rooms s
                     | Some rm \<Rightarrow>
                         if user_id \<in> set (users rm) then
                           (if remove1 user_id (users rm) = [] then (rooms s)(r := None)
                            else (rooms s)(r \<mapsto> rm\<lparr>users := remove1 user_id (users rm)\<rparr>))
                         else rooms s)))"
  by (simp add: leave_room_def Let_def split: option.splits)

lemma leave_room_wf:
  assumes "well_formed s"
  shows "well_formed (snd (leave_room s user_id))"
proof (cases "connections s user_id")
  case None
  then show ?thesis using assms by (simp add: leave_room_def)
next
  case (Some u)
  show ?thesis
  proof (cases "room_id u")
    case None
    then show ?thesis using assms Some by (simp add: leave_room_def)
  next
    case (Some r)
    note ru = this
    show ?thesis
    proof (cases "r = []")
      case True
      then show ?thesis using assms \<open>connections s user_id = Some u\<close> ru by (simp add: leave_room_def)
    next
      case False
      note cs = wf_consistent [OF assms]
      from consistentD1 [OF cs \<open>connections s user_id = Some u\<close> ru] obtain rm where
        rm: "rooms s r = Some rm" "user_id \<in> set (users rm)"
        by blast
      have d: "distinct (users rm)" using assms rm(1) by (rule wf_distinct)
      have uniq: "\<And>r' rm'. rooms s r' = Some rm' \<Longrightarrow> user_id \<in> set (users rm') \<Longrightarrow> r' = r"
        using consistentD2 [OF cs \<open>connections s user_id = Some u\<close>] ru by fastforce
      let ?s = "snd (leave_room s user_id)"
      have c: "connections ?s = (connections s)(user_id \<mapsto> u\<lparr>room_id := None\<rparr>)"
        using \<open>connections s user_id = Some u\<close> ru False by (simp add: leave_room_connections)
      have r: "rooms ?s = (if remove1 user_id (users rm) = [] then (rooms s)(r := None)
                            else (rooms s)(r \<mapsto> rm\<lparr>users := remove1 user_id (users rm)\<rparr>))"
        using \<open>connections s user_id = Some u\<close> ru False rm by (simp add: leave_room_rooms)
      have mem: "\<And>v. v \<in> set (remove1 user_id (users rm)) \<longleftrightarrow> v \<in> set (users rm) \<and> v \<noteq> user_id"
        using d by auto
      have "consistent ?s"
        unfolding consistent_def
      proof (intro allI impI)
        fix v uv r'
        assume v: "connections ?s v = Some uv"
        show "room_id uv = Some r' \<longleftrightarrow> (\<exists>rm'. rooms ?s r' = Some rm' \<and> v \<in> set (users rm'))"
        proof (cases "v = user_id")
          case True
          then have "room_id uv = None" using v c by auto
          moreover have "\<not> (\<exists>rm'. rooms ?s r' = Some rm' \<and> v \<in> set (users rm'))"
            using True r uniq mem by (auto split: if_splits)
          ultimately show ?thesis by simp
        next
          case False
          then have v0: "connections s v = Some uv" using v c by auto
          have "room_id uv = Some r' \<longleftrightarrow> (\<exists>rm'. rooms s r' = Some rm' \<and> v \<in> set (users rm'))"
            using cs v0 unfolding consistent_def by blast
          moreover have "(\<exists>rm'. rooms s r' = Some rm' \<and> v \<in> set (users rm'))
                       \<longleftrightarrow> (\<exists>rm'. rooms ?s r' = Some rm' \<and> v \<in> set (users rm'))"
          proof (cases "r' = r")
            case True
            have in_rm: "v \<in> set (remove1 user_id (users rm)) \<longleftrightarrow> v \<in> set (users rm)"
              using mem \<open>v \<noteq> user_id\<close> by simp
            show ?thesis
            proof (cases "remove1 user_id (users rm) = []")
              case True
              then have "v \<notin> set (users rm)" using in_rm by simp
              moreover have "rooms ?s r = None" using r True by simp
              ultimately show ?thesis using rm \<open>r' = r\<close> by simp
            next
              case False
              then have "rooms ?s r = Some (rm\<lparr>users := remove1 user_id (users rm)\<rparr>)"
                using r by simp
              then show ?thesis using rm \<open>r' = r\<close> in_rm by simp
            qed
          next
            case False
            then show ?thesis using r by auto
          qed
          ultimately show ?thesis by simp
        qed
      qed
      moreover have "\<forall>r' rm'. rooms ?s r' = Some rm' \<longrightarrow> distinct (users rm')"
        using assms r d by (auto simp: well_formed_def split: if_splits)
      moreover have "\<forall>v uv. connections ?s v = Some uv \<longrightarrow> room_id uv \<noteq> Some []"
        using assms c by (auto simp: well_formed_def split: if_splits)
      ultimately show ?thesis by (simp add: well_formed_def)
    qed
  qed
qed

lemma create_room_connections: "connections (snd (create_room now sid s r cap)) = connections s"
  by (simp add: create_room_def Let_def split: option.splits)

lemma create_room_rooms:
  "rooms (snd (create_room now sid s r cap)) =
     (case rooms s r of
        None \<Rightarrow> (rooms s)(r \<mapsto> \<lparr>rid = r, users = [], max_users = cap, created_at = now, session_id = sid\<rparr>)
      | Some rm \<Rightarrow> rooms s)"
  by (simp add: create_room_def Let_def split: option.splits)

lemma create_room_fst:
  "rooms (snd (create_room now sid s r cap)) r = Some (fst (create_room now sid s r cap))"
  by (simp add: create_room_def Let_def split: option.splits)

lemma create_room_wf:
  assumes "well_formed s"
  shows "well_formed (snd (create_room now sid s r cap))"
proof (cases "rooms s r")
  case None
  let ?s = "snd (create_room now sid s r cap)"
  have c: "connections ?s = connections s" by (rule create_room_connections)
  have r: "rooms ?s = (rooms s)(r \<mapsto> \<lparr>rid = r, users = [], max_users = cap, created_at = now, session_id = sid\<rparr>)"
    using None by (simp add: create_room_rooms)
  have "consistent ?s"
    unfolding consistent_def
  proof (intro allI impI)
    fix v uv r'
    assume "connections ?s v = Some uv"
    then have v0: "connections s v = Some uv" using c by simp
    have "room_id uv = Some r' \<longleftrightarrow> (\<exists>rm'. rooms s r' = Some rm' \<and> v \<in> set (users rm'))"
      using wf_consistent [OF assms] v0 unfolding consistent_def by blast
    moreover have "(\<exists>rm'. rooms s r' = Some rm' \<and> v \<in> set (users rm'))
                 \<longleftrightarrow> (\<exists>rm'. rooms ?s r' = Some rm' \<and> v \<in> set (users rm'))"
      using r None by (cases "r' = r") simp_all
    ultimately show "room_id uv = Some r' \<longleftrightarrow> (\<exists>rm'. rooms ?s r' = Some rm' \<and> v \<in> set (users rm'))"
      by simp
  qed
  moreover have "\<forall>r' rm'. rooms ?s r' = Some rm' \<longrightarrow> distinct (users rm')"
    using assms r by (auto simp: well_formed_def split: if_splits)
  moreover have "\<forall>v uv. connections ?s v = Some uv \<longrightarrow> room_id uv \<noteq> Some []"
    using assms c by (simp add: well_formed_def)
  ultimately show ?thesis by (simp add: well_formed_def)
next
  case (Some rm)
  then show ?thesis using assms by (simp add: create_room_def)
qed

text \<open>Appending a session that is in no room to an existing room and setting its reference.\<close>

lemma add_member_wf:
  assumes wf: "well_formed s"
    and u: "connections s user_id = Some u" "room_id u = None"
    and rm: "rooms s r = Some rm" and ne: "r \<noteq> []"
  shows "well_formed (s\<lparr>rooms := (rooms s)(r \<mapsto> rm\<lparr>users := users rm @ [user_id]\<rparr>),
                        connections := (connections s)(user_id \<mapsto> u\<lparr>room_id := Some r\<rparr>)\<rparr>)"
    (is "well_formed ?s")
proof -
  note cs = wf_consistent [OF wf]
  have nowhere: "\<And>r' rm'. rooms s r' = Some rm' \<Longrightarrow> user_id \<notin> set (users rm')"
    using consistentD2 [OF cs u(1)] u(2) by fastforce
  have "consistent ?s"
    unfolding consistent_def
  proof (intro allI impI)
    fix v uv r'
    assume v: "connections ?s v = Some uv"
    show "room_id uv = Some r' \<longleftrightarrow> (\<exists>rm'. rooms ?s r' = Some rm' \<and> v \<in> set (users rm'))"
    proof (cases "v = user_id")
      case True
      then have "room_id uv = Some r" using v by auto
      moreover have "(\<exists>rm'. rooms ?s r' = Some rm' \<and> v \<in> set (users rm')) \<longleftrightarrow> r' = r"
        using True nowhere by (cases "r' = r") simp_all
      ultimately show ?thesis by auto
    next
      case False
      then have v0: "connections s v = Some uv" using v by simp
      have "room_id uv = Some r' \<longleftrightarrow> (\<exists>rm'. rooms s r' = Some rm' \<and> v \<in> set (users rm'))"
        using cs v0 unfolding consistent_def by blast
      moreover have "(\<exists>rm'. rooms s r' = Some rm' \<and> v \<in> set (users rm'))
                   \<longleftrightarrow> (\<exists>rm'. rooms ?s r' = Some rm' \<and> v \<in> set (users rm'))"
        using rm False by (cases "r' = r") simp_all
      ultimately show ?thesis by simp
    qed
  qed
  moreover have "\<forall>r' rm'. rooms ?s r' = Some rm' \<longrightarrow> distinct (users rm')"
    using wf_distinct [OF wf] nowhere [OF rm] rm by (auto split: if_splits)
  moreover have "\<forall>v uv. connections ?s v = Some uv \<longrightarrow> room_id uv \<noteq> Some []"
    using wf_nonempty [OF wf] ne by (auto split: if_splits)
  ultimately show ?thesis by (simp add: well_formed_def)
qed

lemma join_room_unfold:
  "join_room cfg now sid s user_id r =
     (case connections s user_id of
        None \<Rightarrow> (False, s)
      | Some u0 \<Rightarrow>
          (let rm = fst (create_room now sid s r cfg);
               s1 = snd (create_room now sid s r cfg)
           in if is_full rm \<and> user_id \<notin> set (users rm) then (False, s1)
              else
                (let s2 = snd (leave_room s1 user_id)
                 in (case connections s2 user_id of
                       None \<Rightarrow> (True, s2)
                     | Some u \<Rightarrow>
                         (case rooms s2 r of
                            None \<Rightarrow>
                              (True, s2\<lparr>connections :=
                                         (connections s2)(user_id \<mapsto> u\<lparr>room_id := Some r\<rparr>)\<rparr>)
                          | Some rm2 \<Rightarrow>
                              (if user_id \<notin> set (users rm2) then
                                 (True, s2\<lparr>rooms := (rooms s2)(r \<mapsto> rm2\<lparr>users := users rm2 @ [user_id]\<rparr>),
                                            connections :=
                                              (connections s2)(user_id \<mapsto> u\<lparr>room_id := Some r\<rparr>)\<rparr>)
                               else (True, s2)))))))"
  by (simp add: join_room_def Let_def split: prod.splits option.splits)

lemma remove1_Nil_member: "remove1 x xs = [] \<Longrightarrow> x \<in> set xs \<Longrightarrow> xs = [x]"
  by (cases xs) (auto split: if_splits)

lemma leave_room_keeps_room:
  assumes "rooms s r = Some rm" "users rm \<noteq> [user_id]"
  shows "rooms (snd (leave_room s user_id)) r \<noteq> None"
  using assms
  by (auto simp: leave_room_rooms dest: remove1_Nil_member split: option.splits)

lemma leave_room_clears:
  assumes "well_formed s" "connections s user_id = Some u0"
  shows "\<exists>u. connections (snd (leave_room s user_id)) user_id = Some u \<and> room_id u = None"
  using assms wf_nonempty [OF assms]
  by (auto simp: leave_room_connections split: option.splits)

lemma join_room_wf:
  assumes wf: "well_formed s" and ne: "r \<noteq> []"
    and sole: "\<forall>rm. rooms s r = Some rm \<longrightarrow> users rm \<noteq> [user_id]"
  shows "well_formed (snd (join_room cfg now sid s user_id r))"
proof (cases "connections s user_id")
  case None
  then show ?thesis using wf by (simp add: join_room_unfold)
next
  case (Some u0)
  let ?rm = "fst (create_room now sid s r cfg)"
  let ?s1 = "snd (create_room now sid s r cfg)"
  let ?s2 = "snd (leave_room ?s1 user_id)"
  have wf1: "well_formed ?s1" using wf by (rule create_room_wf)
  have rm1: "rooms ?s1 r = Some ?rm" by (rule create_room_fst)
  have "users ?rm \<noteq> [user_id]"
    using sole by (auto simp: create_room_def Let_def split: option.splits)
  then have "rooms ?s2 r \<noteq> None" using rm1 by (rule leave_room_keeps_room [rotated])
  then obtain rm2 where rm2: "rooms ?s2 r = Some rm2" by blast
  have c1: "connections ?s1 user_id = Some u0" using Some by (simp add: create_room_connections)
  from leave_room_clears [OF wf1 c1] obtain u where
    u: "connections ?s2 user_id = Some u" "room_id u = None" by blast
  have wf2: "well_formed ?s2" using wf1 by (rule leave_room_wf)
  have notin: "user_id \<notin> set (users rm2)"
    using consistentD2 [OF wf_consistent [OF wf2] u(1) rm2] u(2) by auto
  show ?thesis
  proof (cases "is_full ?rm \<and> user_id \<notin> set (users ?rm)")
    case True
    then show ?thesis using Some wf1 by (simp add: join_room_unfold Let_def)
  next
    case False
    then have "snd (join_room cfg now sid s user_id r) =
                 ?s2\<lparr>rooms := (rooms ?s2)(r \<mapsto> rm2\<lparr>users := users rm2 @ [user_id]\<rparr>),
                      connections := (connections ?s2)(user_id \<mapsto> u\<lparr>room_id := Some r\<rparr>)\<rparr>"
      using Some u(1) rm2 notin by (auto simp: join_room_unfold Let_def)
    then show ?thesis using add_member_wf [OF wf2 u rm2 ne] by simp
  qed
qed

lemma add_connection_wf:
  assumes wf: "well_formed s"
    and fresh: "\<forall>r rm. rooms s r = Some rm \<longrightarrow> user_id \<notin> set (users rm)"
  shows "well_formed (snd (add_connection now s user_id ws))"
proof -
  let ?s = "snd (add_connection now s user_id ws)"
  have r: "rooms ?s = rooms s" by (simp add: add_connection_def Let_def)
  have c: "connections ?s = (connections s)(user_id \<mapsto>
             \<lparr>uid = user_id, websocket = ws, room_id = None, peer_connections = [], joined_at = now\<rparr>)"
    by (simp add: add_connection_def Let_def)
  have "consistent ?s"
    unfolding consistent_def
  proof (intro allI impI)
    fix v uv r'
    assume v: "connections ?s v = Some uv"
    show "room_id uv = Some r' \<longleftrightarrow> (\<exists>rm'. rooms ?s r' = Some rm' \<and> v \<in> set (users rm'))"
    proof (cases "v = user_id")
      case True
      then have "room_id uv = None" using v c by auto
      then show ?thesis using True fresh r by auto
    next
      case False
      then have "connections s v = Some uv" using v c by simp
      then show ?thesis using wf_consistent [OF wf] r unfolding consistent_def by simp
    qed
  qed
  moreover have "\<forall>r' rm'. rooms ?s r' = Some rm' \<longrightarrow> distinct (users rm')"
    using wf r by (simp add: well_formed_def)
  moreover have "\<forall>v uv. connections ?s v = Some uv \<longrightarrow> room_id uv \<noteq> Some []"
    using wf_nonempty [OF wf] c by (auto split: if_splits)
  ultimately show ?thesis by (simp add: well_formed_def)
qed

lemma remove_connection_connections:
  "connections (remove_connection s user_id) = (connections s)(user_id := None)"
  by (auto simp: remove_connection_def Let_def split: option.splits)

lemma remove_connection_rooms: "rooms (remove_connection s user_id) = rooms s"
  by (simp add: remove_connection_def Let_def split: option.splits)

lemma remove_connection_wf:
  assumes wf: "well_formed s"
  shows "well_formed (remove_connection s user_id)"
proof -
  let ?s = "remove_connection s user_id"
  have sub: "\<And>v uv. connections ?s v = Some uv \<Longrightarrow> connections s v = Some uv"
    by (simp add: remove_connection_connections split: if_splits)
  have "consistent ?s"
    unfolding consistent_def remove_connection_rooms
    using wf_consistent [OF wf] sub unfolding consistent_def by blast
  moreover have "\<forall>r' rm'. rooms ?s r' = Some rm' \<longrightarrow> distinct (users rm')"
    using wf by (simp add: well_formed_def remove_connection_rooms)
  moreover have "\<forall>v uv. connections ?s v = Some uv \<longrightarrow> room_id uv \<noteq> Some []"
    using wf_nonempty [OF wf] sub by blast
  ultimately show ?thesis by (simp add: well_formed_def)
qed

lemma leave_room_roomless_mono: "roomless s v \<Longrightarrow> roomless (snd (leave_room s x)) v"
  by (auto simp: roomless_def leave_room_connections split: option.splits if_splits)

lemma leave_room_roomless_self: "well_formed s \<Longrightarrow> roomless (snd (leave_room s v)) v"
  using wf_nonempty [of s v]
  by (auto simp: roomless_def leave_room_connections split: option.splits if_splits)

lemma leave_room_shrinks:
  "rooms (snd (leave_room s x)) r = Some rm1
     \<Longrightarrow> \<exists>rm0. rooms s r = Some rm0 \<and> set (users rm1) \<subseteq> set (users rm0)"
  by (auto simp: leave_room_rooms split: option.splits if_splits
        dest: subsetD [OF set_remove1_subset])

lemma leave_all_wf: "well_formed s \<Longrightarrow> well_formed (leave_all xs s)"
  by (induction xs arbitrary: s) (simp_all add: leave_room_wf)

lemma leave_all_roomless_mono: "roomless s v \<Longrightarrow> roomless (leave_all xs s) v"
  by (induction xs arbitrary: s) (simp_all add: leave_room_roomless_mono)

lemma leave_all_roomless: "well_formed s \<Longrightarrow> v \<in> set xs \<Longrightarrow> roomless (leave_all xs s) v"
proof (induction xs arbitrary: s)
  case Nil
  then show ?case by simp
next
  case (Cons x xs)
  show ?case
  proof (cases "v = x")
    case True
    then show ?thesis
      using leave_all_roomless_mono [OF leave_room_roomless_self [OF Cons.prems(1)]] by simp
  next
    case False
    then have "v \<in> set xs" using Cons.prems(2) by simp
    then show ?thesis using Cons.IH [OF leave_room_wf [OF Cons.prems(1)]] by simp
  qed
qed

lemma leave_all_shrinks:
  "rooms (leave_all xs s) r = Some rm1
     \<Longrightarrow> \<exists>rm0. rooms s r = Some rm0 \<and> set (users rm1) \<subseteq> set (users rm0)"
proof (induction xs arbitrary: s rm1)
  case Nil
  then show ?case by simp
next
  case (Cons x xs)
  from Cons.IH [of "snd (leave_room s x)" rm1] Cons.prems obtain rm' where
    rm': "rooms (snd (leave_room s x)) r = Some rm'" "set (users rm1) \<subseteq> set (users rm')"
    by auto
  from leave_room_shrinks [OF rm'(1)] rm'(2) show ?case by blast
qed

lemma delete_room_wf:
  assumes wf: "well_formed s"
    and unref: "\<forall>v uv. connections s v = Some uv \<longrightarrow> room_id uv \<noteq> Some r"
  shows "well_formed (s\<lparr>rooms := (rooms s)(r := None)\<rparr>)" (is "well_formed ?s")
proof -
  have "consistent ?s"
    unfolding consistent_def
  proof (intro allI impI)
    fix v uv r'
    assume "connections ?s v = Some uv"
    then have v: "connections s v = Some uv" by simp
    have eq: "room_id uv = Some r' \<longleftrightarrow> (\<exists>rm'. rooms s r' = Some rm' \<and> v \<in> set (users rm'))"
      using wf_consistent [OF wf] v unfolding consistent_def by blast
    show "room_id uv = Some r' \<longleftrightarrow> (\<exists>rm'. rooms ?s r' = Some rm' \<and> v \<in> set (users rm'))"
    proof (cases "r' = r")
      case True
      then show ?thesis using unref v by simp
    next
      case False
      then show ?thesis using eq by simp
    qed
  qed
  moreover have "\<forall>r' rm'. rooms ?s r' = Some rm' \<longrightarrow> distinct (users rm')"
    using wf_distinct [OF wf] by (auto split: if_splits)
  moreover have "\<forall>v uv. connections ?s v = Some uv \<longrightarrow> room_id uv \<noteq> Some []"
    using wf_nonempty [OF wf] by simp
  ultimately show ?thesis by (simp add: well_formed_def)
qed

lemma cleanup_room_wf:
  assumes wf: "well_formed s"
  shows "well_formed (snd (cleanup_room s r))"
proof (cases "rooms s r")
  case None
  then show ?thesis using wf by (simp add: cleanup_room_def get_room_def)
next
  case (Some rm)
  let ?s1 = "leave_all (users rm) s"
  have wf1: "well_formed ?s1" using wf by (rule leave_all_wf)
  show ?thesis
  proof (cases "rooms ?s1 r")
    case None
    then show ?thesis using Some wf1 by (simp add: cleanup_room_def get_room_def Let_def)
  next
    case (Some rm1)
    have "\<forall>v uv. connections ?s1 v = Some uv \<longrightarrow> room_id uv \<noteq> Some r"
    proof (intro allI impI notI)
      fix v uv
      assume v: "connections ?s1 v = Some uv" and ref: "room_id uv = Some r"
      from consistentD1 [OF wf_consistent [OF wf1] v ref] Some
      have "v \<in> set (users rm1)" by simp
      moreover from leave_all_shrinks [OF Some] \<open>rooms s r = Some rm\<close>
      have "set (users rm1) \<subseteq> set (users rm)" by simp
      ultimately have "v \<in> set (users rm)" by blast
      from leave_all_roomless [OF wf this] v have "room_id uv = None"
        by (simp add: roomless_def)
      then show False using ref by simp
    qed
    from delete_room_wf [OF wf1 this] show ?thesis
      using Some \<open>rooms s r = Some rm\<close> by (simp add: cleanup_room_def get_room_def Let_def)
  qed
qed

lemma init_app_wf: "well_formed init_app"
  by (simp add: well_formed_def consistent_def init_app_def)

lemma reachable_guarded_wf: "reachable_guarded cfg s \<Longrightarrow> well_formed s"
proof (induction rule: reachable_guarded.induct)
  case init
  show ?case by (rule init_app_wf)
next
  case (register s user_id now ws)
  then show ?case by (simp add: add_connection_wf)
next
  case (unregister s user_id)
  then show ?case by (simp add: remove_connection_wf)
next
  case (get_or_create s now sid r cap)
  then show ?case by (simp add: create_room_wf)
next
  case (join s r user_id now sid)
  then show ?case by (simp add: join_room_wf)
next
  case (leave s user_id)
  then show ?case by (simp add: leave_room_wf)
next
  case (force_cleanup s r)
  then show ?case by (simp add: cleanup_room_wf)
qed

text \<open>
  Claim C1, as amended: in every state reached from the empty registries by register, join,
  leave, unregister and forceCleanup (and getOrCreate), where register is given an
  identifier that no member list holds, and join is given a room identifier other than
  the empty string and is not a re-join by the only member of the room, a registered
  session's room reference is set to a room exactly if that room is in the registry and
  lists the session.
\<close>

theorem room_reference_consistent:
  "reachable_guarded cfg s \<Longrightarrow> consistent s"
  by (rule wf_consistent [OF reachable_guarded_wf])

theorem room_reference_consistent_witness:
  "reachable_guarded 5 joined_state \<and> consistent joined_state"
proof -
  have "reachable_guarded 5 (snd (add_connection 0 init_app ''S'' open_ws))"
    by (rule reachable_guarded.register [OF reachable_guarded.init]) (simp add: init_app_def)
  then have "reachable_guarded 5 joined_state"
    unfolding joined_state_def
    by (rule reachable_guarded.join) (simp_all add: add_connection_def init_app_def Let_def)
  then show ?thesis using room_reference_consistent [of 5 joined_state] by simp
qed

text \<open>
  The claim as stated, over all sequences of the operations, fails: registering an
  identifier again replaces the session by a fresh one with no room reference, while the
  room it had joined still lists the identifier.
\<close>

theorem duplicate_register_inconsistent:
  "reachable 5 duplicate_register_state \<and> \<not> consistent duplicate_register_state
   \<and> map_option room_id (connections duplicate_register_state ''S'') = Some None
   \<and> map_option users (rooms duplicate_register_state ''R'') = Some [''S'']"
proof -
  have "reachable 5 duplicate_register_state"
    unfolding duplicate_register_state_def joined_state_def
    by (intro reachable.intros)
  moreover have "connections duplicate_register_state ''S'' =
      Some \<lparr>uid = ''S'', websocket = open_ws, room_id = None, peer_connections = [], joined_at = 2\<rparr>"
    by (simp add: duplicate_register_state_def add_connection_def Let_def)
  moreover have "\<exists>rm. rooms duplicate_register_state ''R'' = Some rm \<and> ''S'' \<in> set (users rm)"
    by (simp add: duplicate_register_state_def joined_state_def room_ops Let_def)
  ultimately have "reachable 5 duplicate_register_state \<and> \<not> consistent duplicate_register_state"
    unfolding consistent_def by (metis option.distinct(1) user.select_convs(3))
  moreover have "map_option room_id (connections duplicate_register_state ''S'') = Some None"
    by (simp add: duplicate_register_state_def add_connection_def Let_def)
  moreover have "map_option users (rooms duplicate_register_state ''R'') = Some [''S'']"
    by (simp add: duplicate_register_state_def joined_state_def room_ops Let_def)
  ultimately show ?thesis by simp
qed

section \<open>What leave and join do in general\<close>

text \<open>
  For a room identifier other than the empty string \<open>leave_room\<close> does what is expected of
  it: a member is removed and the identifier returned, the emptied room is deleted, a
  dangling reference is cleared, and a session in no room gets none.
\<close>

lemma leave_room_member_removed:
  assumes "connections s user_id = Some u" "room_id u = Some r" "r \<noteq> []"
    and "rooms s r = Some rm" "user_id \<in> set (users rm)"
  shows "leave_room s user_id =
           (Some r,
            s\<lparr>connections := (connections s)(user_id \<mapsto> u\<lparr>room_id := None\<rparr>),
              rooms := (if remove1 user_id (users rm) = [] then (rooms s)(r := None)
                        else (rooms s)(r \<mapsto> rm\<lparr>users := remove1 user_id (users rm)\<rparr>))\<rparr>)"
  using assms by (simp add: leave_room_def Let_def)

lemma leave_room_last_member:
  assumes "connections s user_id = Some u" "room_id u = Some r" "r \<noteq> []"
    and "rooms s r = Some rm" "users rm = [user_id]"
  shows "fst (leave_room s user_id) = Some r"
    and "get_all_rooms (snd (leave_room s user_id)) r = None"
  using assms by (simp_all add: leave_room_def Let_def get_all_rooms_def)

lemma leave_room_no_room:
  assumes "connections s user_id = None \<or> (\<exists>u. connections s user_id = Some u \<and> room_id u = None)"
  shows "leave_room s user_id = (None, s)"
  using assms by (auto simp: leave_room_def)

lemma leave_room_dangling_cleared:
  assumes "connections s user_id = Some u" "room_id u = Some r" "r \<noteq> []"
    and "rooms s r = None \<or> (\<exists>rm. rooms s r = Some rm \<and> user_id \<notin> set (users rm))"
  shows "leave_room s user_id =
           (None, s\<lparr>connections := (connections s)(user_id \<mapsto> u\<lparr>room_id := None\<rparr>)\<rparr>)"
  using assms by (auto simp: leave_room_def Let_def)

lemma join_room_member_returns_true:
  assumes "connections s user_id = Some u" "rooms s r = Some rm" "user_id \<in> set (users rm)"
  shows "fst (join_room cfg now sid s user_id r)"
  using assms
  by (simp add: join_room_unfold create_room_def Let_def split: option.splits)

section \<open>Capacity\<close>

lemma leave_room_room_at:
  assumes "rooms s r = Some rm" "rooms (snd (leave_room s x)) r = Some rm2"
  shows "max_users rm2 = max_users rm
         \<and> (users rm2 = users rm \<or> (x \<in> set (users rm) \<and> users rm2 = remove1 x (users rm)))"
  using assms
  by (auto simp: leave_room_rooms split: option.splits if_splits)

lemma leave_room_capacity:
  assumes "within_capacity s"
  shows "within_capacity (snd (leave_room s x))"
  unfolding within_capacity_def
proof (intro allI impI)
  fix r rm2
  assume a: "rooms (snd (leave_room s x)) r = Some rm2"
  from leave_room_shrinks [OF a] obtain rm where rm: "rooms s r = Some rm" by blast
  from leave_room_room_at [OF rm a]
  have "max_users rm2 = max_users rm" "length (users rm2) \<le> length (users rm)"
    by (auto simp: length_remove1)
  moreover have "int (length (users rm)) \<le> max_users rm"
    using assms rm by (simp add: within_capacity_def)
  ultimately show "int (length (users rm2)) \<le> max_users rm2" by simp
qed

lemma create_room_capacity:
  assumes "within_capacity s" "0 \<le> cap"
  shows "within_capacity (snd (create_room now sid s r cap))"
  using assms
  by (auto simp: within_capacity_def create_room_rooms split: option.splits if_splits)

lemma join_room_capacity:
  assumes cap: "within_capacity s" and cfg: "0 \<le> cfg"
  shows "within_capacity (snd (join_room cfg now sid s user_id r))"
proof (cases "connections s user_id")
  case None
  then show ?thesis using cap by (simp add: join_room_unfold)
next
  case (Some u0)
  let ?rm = "fst (create_room now sid s r cfg)"
  let ?s1 = "snd (create_room now sid s r cfg)"
  let ?s2 = "snd (leave_room ?s1 user_id)"
  have cap1: "within_capacity ?s1" using cap cfg by (rule create_room_capacity)
  have rm1: "rooms ?s1 r = Some ?rm" by (rule create_room_fst)
  have cap2: "within_capacity ?s2" using cap1 by (rule leave_room_capacity)
  show ?thesis
  proof (cases "is_full ?rm \<and> user_id \<notin> set (users ?rm)")
    case True
    then show ?thesis using Some cap1 by (simp add: join_room_unfold Let_def)
  next
    case open_room: False
    show ?thesis
    proof (cases "connections ?s2 user_id")
      case None
      then show ?thesis using Some open_room cap2 by (auto simp: join_room_unfold Let_def)
    next
      case (Some u)
      note u = this
      show ?thesis
      proof (cases "rooms ?s2 r")
        case None
        then have "rooms (snd (join_room cfg now sid s user_id r)) = rooms ?s2"
          using \<open>connections s user_id = Some u0\<close> open_room u
          by (auto simp: join_room_unfold Let_def)
        then show ?thesis using cap2 by (simp add: within_capacity_def)
      next
        case (Some rm2)
        show ?thesis
        proof (cases "user_id \<in> set (users rm2)")
          case True
          then have "snd (join_room cfg now sid s user_id r) = ?s2"
            using \<open>connections s user_id = Some u0\<close> open_room u Some
            by (auto simp: join_room_unfold Let_def)
          then show ?thesis using cap2 by simp
        next
          case False
          then have rs: "rooms (snd (join_room cfg now sid s user_id r))
                       = (rooms ?s2)(r \<mapsto> rm2\<lparr>users := users rm2 @ [user_id]\<rparr>)"
            using \<open>connections s user_id = Some u0\<close> open_room u Some
            by (auto simp: join_room_unfold Let_def)
          from leave_room_room_at [OF rm1 Some]
          have m: "max_users rm2 = max_users ?rm"
            and us: "users rm2 = users ?rm
                     \<or> (user_id \<in> set (users ?rm) \<and> users rm2 = remove1 user_id (users ?rm))"
            by simp_all
          have bound1: "int (length (users ?rm)) \<le> max_users ?rm"
            using cap1 rm1 by (simp add: within_capacity_def)
          have "int (length (users rm2)) + 1 \<le> max_users rm2"
          proof (cases "user_id \<in> set (users ?rm)")
            case True
            then have "users rm2 = remove1 user_id (users ?rm)" using us False by auto
            then have "length (users rm2) = length (users ?rm) - 1"
              using True by (simp add: length_remove1)
            moreover have "0 < length (users ?rm)" using True by (cases "users ?rm") auto
            ultimately have "int (length (users rm2)) + 1 = int (length (users ?rm))"
              by linarith
            then show ?thesis using bound1 m by simp
          next
            case False
            then have "users rm2 = users ?rm" using us by simp
            moreover have "\<not> is_full ?rm" using open_room False by simp
            ultimately show ?thesis using m by (simp add: is_full_def)
          qed
          then show ?thesis
            using cap2 rs by (auto simp: within_capacity_def split: if_splits)
        qed
      qed
    qed
  qed
qed

lemma leave_all_capacity: "within_capacity s \<Longrightarrow> within_capacity (leave_all xs s)"
  by (induction xs arbitrary: s) (simp_all add: leave_room_capacity)

lemma cleanup_room_capacity:
  assumes "within_capacity s"
  shows "within_capacity (snd (cleanup_room s r))"
proof -
  have "\<And>st. within_capacity st \<Longrightarrow> within_capacity (st\<lparr>rooms := (rooms st)(r := None)\<rparr>)"
    by (simp add: within_capacity_def)
  then show ?thesis
    using leave_all_capacity [OF assms]
    by (auto simp: cleanup_room_def get_room_def Let_def assms split: option.splits)
qed

lemma reachable_capacity: "reachable cfg s \<Longrightarrow> 0 \<le> cfg \<Longrightarrow> within_capacity s"
proof (induction rule: reachable.induct)
  case init
  show ?case by (simp add: within_capacity_def init_app_def)
next
  case (register s now user_id ws)
  then show ?case by (simp add: within_capacity_def add_connection_def Let_def)
next
  case (unregister s user_id)
  then show ?case by (simp add: within_capacity_def remove_connection_rooms)
next
  case (get_or_create s cap now sid r)
  then show ?case by (simp add: create_room_capacity)
next
  case (join s now sid user_id r)
  then show ?case by (simp add: join_room_capacity)
next
  case (leave s user_id)
  then show ?case by (simp add: leave_room_capacity)
next
  case (force_cleanup s r)
  then show ?case by (simp add: cleanup_room_capacity)
qed

lemma join_full_room_rejected:
  assumes "rooms s r = Some rm" "is_full rm" "user_id \<notin> set (users rm)"
  shows "join_room cfg now sid s user_id r = (False, s)"
  using assms
  by (simp add: join_room_unfold create_room_def Let_def split: option.splits)

text \<open>
  Claim C4: in every reachable state each room's member count is at most its capacity;
  and a join by a session that is not a member of a room that is at capacity returns
  false and leaves the rooms map and every session's room reference unchanged.

  The capacity of a room is a positive integer in the data model; the bound is proved
  for every configured capacity that is not negative.  The rejected join returns the
  whole state as it was.
\<close>

theorem capacity_respected:
  "(0 \<le> cfg \<longrightarrow> reachable cfg s \<longrightarrow>
      (\<forall>r rm. rooms s r = Some rm \<longrightarrow> int (length (users rm)) \<le> max_users rm))
   \<and> (rooms s' r' = Some rm' \<and> is_full rm' \<and> user_id \<notin> set (users rm')
        \<longrightarrow> join_room cfg now sid s' user_id r' = (False, s'))"
  using reachable_capacity [of cfg s] join_full_room_rejected [of s' r' rm' user_id cfg now sid]
  by (simp add: within_capacity_def)

theorem capacity_respected_witness:
  "(0::int) \<le> 1 \<and> reachable 1 full_state
   \<and> rooms full_state ''R'' = Some full_room
   \<and> int (length (users full_room)) \<le> max_users full_room
   \<and> is_full full_room \<and> ''T'' \<notin> set (users full_room)
   \<and> join_room 1 9 ''F9'' full_state ''T'' ''R'' = (False, full_state)"
proof -
  have r: "reachable 1 full_state"
    unfolding full_state_def by (intro reachable.intros)
  have rm: "rooms full_state ''R'' = Some full_room"
    by (simp add: full_state_def full_room_def room_ops Let_def)
  have f: "is_full full_room" "''T'' \<notin> set (users full_room)"
    by (simp_all add: full_room_def is_full_def)
  show ?thesis
    using capacity_respected [of 1 full_state full_state "''R''" full_room "''T''" 9 "''F9''"]
      r rm f
    by simp
qed

section \<open>Closing peer links\<close>

lemma close_and_remove_other:
  "a \<noteq> owner \<Longrightarrow> connections (close_and_remove s owner peer) a = connections s a"
  by (simp add: close_and_remove_def get_user_def split: option.splits)

lemma close_and_remove_rooms: "rooms (close_and_remove s owner peer) = rooms s"
  by (simp add: close_and_remove_def get_user_def split: option.splits)

lemma close_and_remove_link:
  assumes "closes_cleanly s"
  shows "holds_link (close_and_remove s owner peer) a b
           \<longleftrightarrow> holds_link s a b \<and> \<not> (a = owner \<and> b = peer)"
proof (cases "a = owner")
  case False
  then show ?thesis by (simp add: holds_link_def close_and_remove_other)
next
  case True
  show ?thesis
  proof (cases "connections s owner")
    case None
    then show ?thesis using True by (simp add: holds_link_def close_and_remove_def get_user_def)
  next
    case (Some u)
    show ?thesis
    proof (cases "map_of (peer_connections u) peer")
      case None
      then show ?thesis using True Some
        by (auto simp: holds_link_def close_and_remove_def get_user_def)
    next
      case (Some pc)
      have ok: "\<not> (connectionState pc \<notin> set [''closed'', ''failed''] \<and> close_raises pc)"
        using assms \<open>connections s owner = Some u\<close> Some unfolding closes_cleanly_def by blast
      have "connections (close_and_remove s owner peer) owner
              = Some (u\<lparr>peer_connections := AList.delete peer (peer_connections u)\<rparr>)"
        using \<open>connections s owner = Some u\<close> Some ok
        by (auto simp: close_and_remove_def get_user_def)
      then show ?thesis using True \<open>connections s owner = Some u\<close>
        by (auto simp: holds_link_def delete_conv')
    qed
  qed
qed

lemma close_and_remove_cleanly:
  assumes "closes_cleanly s"
  shows "closes_cleanly (close_and_remove s owner peer)"
  unfolding closes_cleanly_def
proof (intro allI impI)
  fix a u b pc
  assume a: "connections (close_and_remove s owner peer) a = Some u"
    and b: "map_of (peer_connections u) b = Some pc"
  have "\<exists>u0. connections s a = Some u0 \<and> map_of (peer_connections u0) b = Some pc"
  proof (cases "a = owner")
    case False
    then show ?thesis using a b by (simp add: close_and_remove_other)
  next
    case True
    then show ?thesis using a b
      by (auto simp: close_and_remove_def get_user_def delete_conv'
               split: option.splits if_splits)
  qed
  then show "connectionState pc \<in> set [''closed'', ''failed''] \<or> \<not> close_raises pc"
    using assms unfolding closes_cleanly_def by blast
qed

lemma cleanup_peer_connection_link:
  assumes "closes_cleanly s"
  shows "holds_link (cleanup_peer_connection s x t) a b
           \<longleftrightarrow> holds_link s a b \<and> \<not> (a = x \<and> b = t) \<and> \<not> (a = t \<and> b = x)"
  unfolding cleanup_peer_connection_def
  using close_and_remove_link [OF close_and_remove_cleanly [OF assms]]
        close_and_remove_link [OF assms]
  by simp

lemma cleanup_peer_connection_cleanly:
  "closes_cleanly s \<Longrightarrow> closes_cleanly (cleanup_peer_connection s x t)"
  unfolding cleanup_peer_connection_def by (intro close_and_remove_cleanly)

lemma cleanup_peer_connection_other:
  "a \<noteq> x \<Longrightarrow> a \<noteq> t \<Longrightarrow> connections (cleanup_peer_connection s x t) a = connections s a"
  unfolding cleanup_peer_connection_def by (simp add: close_and_remove_other)

lemma cleanup_links_link:
  "closes_cleanly s \<Longrightarrow>
     holds_link (cleanup_links x ts s) a b
       \<longleftrightarrow> holds_link s a b \<and> \<not> (a = x \<and> b \<in> set ts) \<and> \<not> (b = x \<and> a \<in> set ts)"
proof (induction ts arbitrary: s)
  case Nil
  show ?case by simp
next
  case (Cons t ts)
  from Cons.IH [OF cleanup_peer_connection_cleanly [OF Cons.prems]]
       cleanup_peer_connection_link [OF Cons.prems]
  show ?case by auto
qed

lemma cleanup_links_other:
  "a \<noteq> x \<Longrightarrow> a \<notin> set ts \<Longrightarrow> connections (cleanup_links x ts s) a = connections s a"
  by (induction ts arbitrary: s) (simp_all add: cleanup_peer_connection_other)

lemma holds_link_keys:
  "connections s x = Some u \<Longrightarrow> holds_link s x t \<longleftrightarrow> t \<in> set (map fst (peer_connections u))"
  by (simp add: holds_link_def map_of_eq_None_iff)

text \<open>
  Claim C3, as amended: after \<open>cleanup_all_user_connections\<close> for a session X, provided
  every stored handle can be closed, X's own mapping has no entry, and no session that X
  held a handle to has an entry keyed by X.  The mapping of any other session is left as
  it was; in particular a session Y that held a handle to X while X held none to Y keeps
  its entry.
\<close>

theorem outgoing_links_cleaned:
  assumes "closes_cleanly s"
  shows "(\<forall>t. \<not> holds_link (cleanup_all_user_connections s x) x t)
       \<and> (\<forall>y. holds_link s x y \<longrightarrow> \<not> holds_link (cleanup_all_user_connections s x) y x)
       \<and> (\<forall>y. y \<noteq> x \<longrightarrow> \<not> holds_link s x y
              \<longrightarrow> connections (cleanup_all_user_connections s x) y = connections s y)"
proof (cases "connections s x")
  case None
  then show ?thesis
    by (simp add: cleanup_all_user_connections_def get_user_def holds_link_def)
next
  case (Some u)
  let ?ts = "map fst (peer_connections u)"
  have eq: "cleanup_all_user_connections s x = cleanup_links x ?ts s"
    using Some by (simp add: cleanup_all_user_connections_def get_user_def)
  have keys: "\<And>t. holds_link s x t \<longleftrightarrow> t \<in> set ?ts"
    using holds_link_keys [OF Some] by simp
  have "\<forall>t. \<not> holds_link (cleanup_links x ?ts s) x t"
    using cleanup_links_link [OF assms] keys by blast
  moreover have "\<forall>y. holds_link s x y \<longrightarrow> \<not> holds_link (cleanup_links x ?ts s) y x"
    using cleanup_links_link [OF assms] keys by blast
  moreover have "\<forall>y. y \<noteq> x \<longrightarrow> \<not> holds_link s x y
                   \<longrightarrow> connections (cleanup_links x ?ts s) y = connections s y"
    using cleanup_links_other keys by blast
  ultimately show ?thesis unfolding eq by blast
qed

theorem outgoing_links_cleaned_witness:
  "closes_cleanly linked_state
   \<and> holds_link linked_state ''X'' ''Y'' \<and> holds_link linked_state ''Y'' ''X''
   \<and> \<not> holds_link (cleanup_all_user_connections linked_state ''X'') ''X'' ''Y''
   \<and> \<not> holds_link (cleanup_all_user_connections linked_state ''X'') ''Y'' ''X''"
proof -
  have c: "closes_cleanly linked_state"
    by (auto simp: closes_cleanly_def linked_state_def link_def two_users_def new_pc_def
          create_peer_connection_def get_user_def add_connection_def init_app_def Let_def
          split: if_splits)
  have l: "holds_link linked_state ''X'' ''Y''" "holds_link linked_state ''Y'' ''X''"
    by (simp_all add: holds_link_def linked_state_def link_def two_users_def
          create_peer_connection_def get_user_def add_connection_def init_app_def Let_def)
  from outgoing_links_cleaned [OF c, of "''X''"] l c show ?thesis by blast
qed

text \<open>
  The claim as stated fails for a session that holds a handle to X while X holds none to
  it: the cleanup walks X's own keys only, finds none, and returns the state unchanged.
\<close>

theorem one_way_link_survives:
  "holds_link one_way_state ''Y'' ''X'' \<and> \<not> holds_link one_way_state ''X'' ''Y''
   \<and> cleanup_all_user_connections one_way_state ''X'' = one_way_state
   \<and> holds_link (cleanup_all_user_connections one_way_state ''X'') ''Y'' ''X''"
  by (simp add: holds_link_def one_way_state_def link_def two_users_def
        cleanup_all_user_connections_def create_peer_connection_def get_user_def
        add_connection_def init_app_def Let_def)

section \<open>Relaying to a missing target\<close>

text \<open>
  Claim C8: a relay of an offer, answer or ice_candidate message whose target session is
  absent from the registry or has a closed sink returns normally, sends nothing to any
  session, sends no error back to the sender, and leaves the registry state unchanged.

  The relay functions are total and have no error result: every exception of the source
  is caught inside them.  Sent messages are recorded in the sinks, which are part of the
  state, so an unchanged state means that nothing was sent.  The same holds one level up,
  for the router's handlers, when the message names the target.
\<close>

theorem relay_to_missing_target_dropped:
  assumes "get_user s target_id = None
           \<or> (\<exists>t. get_user s target_id = Some t \<and> closed (websocket t))"
  shows "handle_offer s user_id target_id d = s
       \<and> handle_answer s user_id target_id d = s
       \<and> handle_ice_candidate s user_id target_id d = s
       \<and> (d ''target_id'' = Some target_id \<and> target_id \<noteq> [] \<longrightarrow>
            handle_webrtc_offer s user_id d = s
          \<and> handle_webrtc_answer s user_id d = s
          \<and> handle_ice_candidate_msg s user_id d = s)"
  using assms
  by (auto simp: handle_offer_def handle_answer_def handle_ice_candidate_def
        handle_webrtc_offer_def handle_webrtc_answer_def handle_ice_candidate_msg_def)

theorem relay_to_missing_target_dropped_witness:
  "get_user two_users ''Z'' = None
   \<and> handle_offer two_users ''X'' ''Z'' [''target_id'' \<mapsto> ''Z'', ''sdp'' \<mapsto> ''v=0''] = two_users
   \<and> handle_answer two_users ''X'' ''Z'' [''target_id'' \<mapsto> ''Z'', ''sdp'' \<mapsto> ''v=0''] = two_users
   \<and> handle_ice_candidate two_users ''X'' ''Z'' [''target_id'' \<mapsto> ''Z'', ''sdp'' \<mapsto> ''v=0''] = two_users
   \<and> handle_webrtc_offer two_users ''X'' [''target_id'' \<mapsto> ''Z'', ''sdp'' \<mapsto> ''v=0''] = two_users"
proof -
  have a: "get_user two_users ''Z'' = None"
    by (simp add: get_user_def two_users_def add_connection_def init_app_def Let_def)
  then show ?thesis
    using relay_to_missing_target_dropped
      [of two_users "''Z''" "''X''" "[''target_id'' \<mapsto> ''Z'', ''sdp'' \<mapsto> ''v=0'']"]
    by simp
qed

text \<open>A relay to a registered target whose sink is closed is dropped as well.\<close>

lemma relay_to_closed_target_dropped:
  "map_option (closed \<circ> websocket) (get_user closed_target_state ''Y'') = Some True
   \<and> handle_offer closed_target_state ''X'' ''Y'' [''sdp'' \<mapsto> ''v=0''] = closed_target_state"
  by (simp add: handle_offer_def get_user_def closed_target_state_def add_connection_def
        init_app_def closed_ws_def Let_def)

text \<open>An open target does receive the message.\<close>

lemma relay_to_open_target_delivered:
  "map_option (outbox \<circ> websocket)
     (get_user (handle_offer two_users ''Y'' ''X'' [''sdp'' \<mapsto> ''v=0'']) ''X'')
   = Some [Relay ''offer'' (Some ''v=0'') ''Y'']"
  by (simp add: handle_offer_def get_user_def two_users_def add_connection_def init_app_def
        open_ws_def send_str_def Let_def)

section \<open>Recording sessions\<close>

lemmas rec_ops = start_recording_def stop_recording_def force_stop_recording_def
  init_rec_def get_room_def Let_def

lemma joined_state_room:
  "rooms joined_state ''R'' =
     Some \<lparr>rid = ''R'', users = [''S''], max_users = 5, created_at = 1, session_id = ''F1''\<rparr>"
  by (simp add: joined_state_def room_ops Let_def)

lemma joined_state_no_room: "rooms joined_state ''Q'' = None"
  by (simp add: joined_state_def room_ops Let_def)

lemma recording_state_eq:
  "recording_state = \<lparr>active_recordings = [(''R'', active_rec)], recording_history = []\<rparr>"
  by (simp add: recording_state_def rec_ops joined_state_room active_rec_def)

lemma stopped_state_eq:
  "stopped_state = \<lparr>active_recordings = [], recording_history = [(''F1'', stopped_rec)]\<rparr>"
  by (simp add: stopped_state_def recording_state_eq rec_ops stopped_rec_def active_rec_def)

lemma two_room_state_Q:
  "get_room two_room_state ''Q'' =
     Some \<lparr>rid = ''Q'', users = [''T''], max_users = 5, created_at = 2, session_id = ''F2''\<rparr>"
  by (simp add: two_room_state_def joined_state_def room_ops Let_def)

lemma set_update_cases:
  "(k', v') \<in> set (AList.update k v al) \<Longrightarrow> (k' = k \<and> v' = v) \<or> (k', v') \<in> set al"
  by (induction al) (auto split: if_splits)

lemma set_delete_subset: "(k', v') \<in> set (AList.delete k al) \<Longrightarrow> (k', v') \<in> set al"
  by (induction al) (auto split: if_splits)

lemma start_recording_keyed:
  assumes "keyed_by_room st"
  shows "keyed_by_room (snd (start_recording now folder_ok s st r))"
  using assms
  by (auto simp: keyed_by_room_def start_recording_def Let_def distinct_update
           dest!: set_update_cases split: option.splits)

lemma stop_recording_keyed:
  assumes "keyed_by_room st"
  shows "keyed_by_room (snd (stop_recording now st r))"
  using assms
  by (auto simp: keyed_by_room_def stop_recording_def Let_def distinct_delete
           dest!: set_delete_subset split: option.splits)

lemma force_stop_recording_keyed:
  assumes "keyed_by_room st"
  shows "keyed_by_room (snd (force_stop_recording now st r reason))"
  using assms
  by (auto simp: keyed_by_room_def force_stop_recording_def Let_def distinct_delete
           dest!: set_delete_subset split: option.splits)

lemma rec_reachable_keyed: "rec_reachable st \<Longrightarrow> keyed_by_room st"
proof (induction rule: rec_reachable.induct)
  case init
  show ?case by (simp add: keyed_by_room_def init_rec_def)
next
  case (start st now folder_ok s r)
  then show ?case by (simp add: start_recording_keyed)
next
  case (stop st now r)
  then show ?case by (simp add: stop_recording_keyed)
next
  case (force_stop st now r reason)
  then show ?case by (simp add: force_stop_recording_keyed)
next
  case (room_deleted st now r)
  then show ?case by (simp add: cleanup_room_recording_def force_stop_recording_keyed)
next
  case (purge st now days_old)
  then show ?case by (simp add: cleanup_old_recordings_def keyed_by_room_def Let_def)
qed

lemma distinct_keys_filter:
  "distinct (map fst al) \<Longrightarrow> length (filter (\<lambda>p. fst p = r) al) \<le> 1"
proof (induction al)
  case Nil
  show ?case by simp
next
  case (Cons p al)
  show ?case
  proof (cases "fst p = r")
    case True
    then have "r \<notin> fst ` set al" using Cons.prems by auto
    then have "filter (\<lambda>p. fst p = r) al = []" by (auto simp: filter_empty_conv)
    then show ?thesis using True by simp
  next
    case False
    then show ?thesis using Cons by simp
  qed
qed

lemma keyed_at_most_one:
  assumes "keyed_by_room st"
  shows "length (filter (\<lambda>(k, rc). rec_room_id rc = r) (active_recordings st)) \<le> 1"
proof -
  have "filter (\<lambda>(k, rc). rec_room_id rc = r) (active_recordings st)
          = filter (\<lambda>p. fst p = r) (active_recordings st)"
    using assms by (intro filter_cong) (auto simp: keyed_by_room_def)
  moreover have "distinct (map fst (active_recordings st))"
    using assms by (simp add: keyed_by_room_def)
  ultimately show ?thesis using distinct_keys_filter [of "active_recordings st" r] by simp
qed

lemma start_recording_again:
  assumes "start_recording now folder_ok s st r = (Inr fid, st1)" "get_room s2 r \<noteq> None"
  shows "start_recording now2 folder_ok2 s2 st1 r = (Inr fid, st1)"
  using assms
  by (auto simp: start_recording_def Let_def update_conv' split: option.splits if_splits)

text \<open>
  Claim C5: \<open>start_recording\<close> fails with RoomNotFound when the room does not exist; when a
  recording is already active for the room it returns the existing folder identifier and
  creates no second entry (the state is unchanged), so a second start right after a
  successful one returns the same folder identifier; and in every reachable state at most
  one active recording session belongs to a room.  The source looks the room up first, so
  the second case is stated for a room that exists.
\<close>

theorem start_recording_idempotent:
  "(get_room s r = None \<longrightarrow> start_recording now folder_ok s st r = (Inl (RoomNotFound r), st))
   \<and> (get_room s r \<noteq> None \<and> map_of (active_recordings st) r = Some existing
        \<longrightarrow> start_recording now folder_ok s st r = (Inr (rec_session_id existing), st))
   \<and> (start_recording now folder_ok s st r = (Inr fid, st1) \<and> get_room s2 r \<noteq> None
        \<longrightarrow> start_recording now2 folder_ok2 s2 st1 r = (Inr fid, st1))
   \<and> (rec_reachable st
        \<longrightarrow> length (filter (\<lambda>(k, rc). rec_room_id rc = r) (active_recordings st)) \<le> 1)"
proof (intro conjI impI)
  show "get_room s r = None \<Longrightarrow> start_recording now folder_ok s st r = (Inl (RoomNotFound r), st)"
    by (simp add: start_recording_def)
  show "get_room s r \<noteq> None \<and> map_of (active_recordings st) r = Some existing
          \<Longrightarrow> start_recording now folder_ok s st r = (Inr (rec_session_id existing), st)"
    by (auto simp: start_recording_def)
  show "start_recording now folder_ok s st r = (Inr fid, st1) \<and> get_room s2 r \<noteq> None
          \<Longrightarrow> start_recording now2 folder_ok2 s2 st1 r = (Inr fid, st1)"
    using start_recording_again by blast
  show "rec_reachable st
          \<Longrightarrow> length (filter (\<lambda>(k, rc). rec_room_id rc = r) (active_recordings st)) \<le> 1"
    by (rule keyed_at_most_one [OF rec_reachable_keyed])
qed

theorem start_recording_idempotent_witness:
  "get_room joined_state ''Q'' = None
   \<and> start_recording 10 True joined_state init_rec ''Q'' = (Inl (RoomNotFound ''Q''), init_rec)
   \<and> start_recording 10 True joined_state init_rec ''R'' = (Inr ''F1'', recording_state)
   \<and> get_room joined_state ''R'' \<noteq> None
   \<and> start_recording 20 True joined_state recording_state ''R'' = (Inr ''F1'', recording_state)
   \<and> rec_reachable recording_state
   \<and> length (filter (\<lambda>(k, rc). rec_room_id rc = ''R'') (active_recordings recording_state)) \<le> 1"
proof -
  have q: "get_room joined_state ''Q'' = None"
    by (simp add: get_room_def joined_state_no_room)
  have r: "get_room joined_state ''R'' \<noteq> None"
    by (simp add: get_room_def joined_state_room)
  have first: "start_recording 10 True joined_state init_rec ''R'' = (Inr ''F1'', recording_state)"
    by (simp add: recording_state_def rec_ops joined_state_room)
  have reach: "rec_reachable recording_state"
    unfolding recording_state_def by (intro rec_reachable.intros)
  from start_recording_idempotent [of joined_state "''Q''" 10 True init_rec] q
  have a: "start_recording 10 True joined_state init_rec ''Q'' = (Inl (RoomNotFound ''Q''), init_rec)"
    by blast
  from start_recording_idempotent
         [of joined_state "''R''" 10 True init_rec _ "''F1''" recording_state joined_state 20 True]
       first r
  have b: "start_recording 20 True joined_state recording_state ''R'' = (Inr ''F1'', recording_state)"
    by blast
  from start_recording_idempotent [of _ "''R''" _ _ recording_state] reach
  have c: "length (filter (\<lambda>(k, rc). rec_room_id rc = ''R'') (active_recordings recording_state)) \<le> 1"
    by blast
  show ?thesis using q a first r b reach c by simp
qed

lemma stop_recording_inactive:
  "map_of (active_recordings st) r = None \<Longrightarrow> stop_recording now st r = (None, st)"
  by (simp add: stop_recording_def)

lemma stop_recording_active:
  assumes "map_of (active_recordings st) r = Some rc"
  shows "stop_recording now st r =
           (Some (rc\<lparr>ended_at := Some now, status := ''stopped''\<rparr>),
            st\<lparr>active_recordings := AList.delete r (active_recordings st),
               recording_history :=
                 AList.update (rec_session_id rc) (rc\<lparr>ended_at := Some now, status := ''stopped''\<rparr>)
                   (recording_history st)\<rparr>)"
  using assms by (simp add: stop_recording_def Let_def)

text \<open>
  Claim C6, as amended: \<open>stop_recording\<close> returns none when no recording is active for the
  room; otherwise it sets the end timestamp and the status \<open>stopped\<close>, removes the entry
  from the active set, stores it in the history under its folder identifier and returns
  it; its duration is then defined and equal to the clock reading at the stop minus the
  one recorded at the start, so it is not negative whenever the reading at the stop is not
  earlier than the one at the start; and a second stop right after returns none.
\<close>

theorem stop_recording_moves_to_history:
  "(map_of (active_recordings st) r = None \<longrightarrow> stop_recording now st r = (None, st))
   \<and> (map_of (active_recordings st) r = Some rc \<longrightarrow>
        (\<exists>st1 d.
           stop_recording now st r = (Some (rc\<lparr>ended_at := Some now, status := ''stopped''\<rparr>), st1)
           \<and> map_of (active_recordings st1) r = None
           \<and> (\<forall>k. k \<noteq> r \<longrightarrow> map_of (active_recordings st1) k = map_of (active_recordings st) k)
           \<and> map_of (recording_history st1) (rec_session_id rc)
               = Some (rc\<lparr>ended_at := Some now, status := ''stopped''\<rparr>)
           \<and> (\<forall>k. k \<noteq> rec_session_id rc
                 \<longrightarrow> map_of (recording_history st1) k = map_of (recording_history st) k)
           \<and> duration (rc\<lparr>ended_at := Some now, status := ''stopped''\<rparr>) = Some d
           \<and> d = now - started_at rc
           \<and> (started_at rc \<le> now \<longrightarrow> 0 \<le> d)
           \<and> stop_recording now2 st1 r = (None, st1)))"
proof (intro conjI impI)
  show "map_of (active_recordings st) r = None \<Longrightarrow> stop_recording now st r = (None, st)"
    by (rule stop_recording_inactive)
next
  assume a: "map_of (active_recordings st) r = Some rc"
  let ?rc = "rc\<lparr>ended_at := Some now, status := ''stopped''\<rparr>"
  let ?st1 = "st\<lparr>active_recordings := AList.delete r (active_recordings st),
                 recording_history := AList.update (rec_session_id rc) ?rc (recording_history st)\<rparr>"
  have f1: "stop_recording now st r = (Some ?rc, ?st1)" using a by (rule stop_recording_active)
  have f2: "map_of (active_recordings ?st1) r = None" by (simp add: delete_conv')
  have f3: "\<forall>k. k \<noteq> r \<longrightarrow> map_of (active_recordings ?st1) k = map_of (active_recordings st) k"
    by (simp add: delete_conv')
  have f4: "map_of (recording_history ?st1) (rec_session_id rc) = Some ?rc"
    by (simp add: update_conv')
  have f5: "\<forall>k. k \<noteq> rec_session_id rc
                   \<longrightarrow> map_of (recording_history ?st1) k = map_of (recording_history st) k"
    by (simp add: update_conv')
  have f6: "duration ?rc = Some (now - started_at rc)" by (simp add: duration_def)
  have f7: "started_at rc \<le> now \<longrightarrow> 0 \<le> now - started_at rc" by simp
  have f8: "stop_recording now2 ?st1 r = (None, ?st1)"
    using f2 by (rule stop_recording_inactive)
  show "\<exists>st1 d.
           stop_recording now st r = (Some ?rc, st1)
           \<and> map_of (active_recordings st1) r = None
           \<and> (\<forall>k. k \<noteq> r \<longrightarrow> map_of (active_recordings st1) k = map_of (active_recordings st) k)
           \<and> map_of (recording_history st1) (rec_session_id rc) = Some ?rc
           \<and> (\<forall>k. k \<noteq> rec_session_id rc
                 \<longrightarrow> map_of (recording_history st1) k = map_of (recording_history st) k)
           \<and> duration ?rc = Some d
           \<and> d = now - started_at rc
           \<and> (started_at rc \<le> now \<longrightarrow> 0 \<le> d)
           \<and> stop_recording now2 st1 r = (None, st1)"
    apply (rule exI [of _ ?st1])
    apply (rule exI [of _ "now - started_at rc"])
    apply (intro conjI)
            apply (rule f1)
           apply (rule f2)
          apply (rule f3)
         apply (rule f4)
        apply (rule f5)
       apply (rule f6)
      apply (rule refl)
     apply (rule f7)
    apply (rule f8)
    done
qed

theorem stop_recording_moves_to_history_witness:
  "map_of (active_recordings init_rec) ''R'' = None
   \<and> stop_recording 15 init_rec ''R'' = (None, init_rec)
   \<and> map_of (active_recordings recording_state) ''R'' = Some active_rec
   \<and> stop_recording 15 recording_state ''R'' = (Some stopped_rec, stopped_state)
   \<and> map_of (active_recordings stopped_state) ''R'' = None
   \<and> map_of (recording_history stopped_state) ''F1'' = Some stopped_rec
   \<and> duration stopped_rec = Some 5
   \<and> started_at active_rec \<le> 15
   \<and> stop_recording 16 stopped_state ''R'' = (None, stopped_state)"
proof -
  have a0: "map_of (active_recordings init_rec) ''R'' = None" by (simp add: init_rec_def)
  have a1: "map_of (active_recordings recording_state) ''R'' = Some active_rec"
    by (simp add: recording_state_eq)
  have t: "started_at active_rec \<le> 15" by (simp add: active_rec_def)
  from stop_recording_moves_to_history [of init_rec "''R''" 15] a0
  have b0: "stop_recording 15 init_rec ''R'' = (None, init_rec)" by blast
  from stop_recording_moves_to_history [of recording_state "''R''" 15 active_rec 16] a1
  obtain st1 d where
    w: "stop_recording 15 recording_state ''R''
          = (Some (active_rec\<lparr>ended_at := Some 15, status := ''stopped''\<rparr>), st1)"
       "map_of (active_recordings st1) ''R'' = None"
       "map_of (recording_history st1) (rec_session_id active_rec)
          = Some (active_rec\<lparr>ended_at := Some 15, status := ''stopped''\<rparr>)"
       "duration (active_rec\<lparr>ended_at := Some 15, status := ''stopped''\<rparr>) = Some d"
       "d = 15 - started_at active_rec"
       "stop_recording 16 st1 ''R'' = (None, st1)"
    by blast
  have st1: "st1 = stopped_state" using w(1) by (simp add: stopped_state_def)
  have fid: "rec_session_id active_rec = ''F1''" by (simp add: active_rec_def)
  have d: "d = 5" using w(5) by (simp add: active_rec_def)
  show ?thesis
    using a0 b0 a1 w t unfolding st1 fid d stopped_rec_def [symmetric] by simp
qed

text \<open>
  The claim as stated, with a duration that is never negative, fails: both timestamps are
  readings of the wall clock (\<open>datetime.now()\<close>), which can be set back between the start
  and the stop.  A recording started at reading 10 and stopped at reading 3 has the
  duration -7.
\<close>

theorem stop_before_start_negative_duration:
  "map_of (active_recordings recording_state) ''R'' = Some active_rec
   \<and> started_at active_rec = 10
   \<and> fst (stop_recording 3 recording_state ''R'')
       = Some (active_rec\<lparr>ended_at := Some 3, status := ''stopped''\<rparr>)
   \<and> duration (active_rec\<lparr>ended_at := Some 3, status := ''stopped''\<rparr>) = Some (- 7)
   \<and> \<not> (0::int) \<le> - 7"
  by (simp add: recording_state_eq stop_recording_def duration_def active_rec_def Let_def)

lemma start_recording_history:
  "recording_history (snd (start_recording now folder_ok s st r)) = recording_history st"
  by (simp add: start_recording_def Let_def split: option.splits)

lemma stop_recording_history:
  "recording_history (snd (stop_recording now st r)) =
     (case map_of (active_recordings st) r of
        None \<Rightarrow> recording_history st
      | Some rc \<Rightarrow> AList.update (rec_session_id rc) (rc\<lparr>ended_at := Some now, status := ''stopped''\<rparr>)
                     (recording_history st))"
  by (simp add: stop_recording_def Let_def split: option.splits)

lemma force_stop_recording_history:
  "recording_history (snd (force_stop_recording now st r reason)) =
     (case map_of (active_recordings st) r of
        None \<Rightarrow> recording_history st
      | Some rc \<Rightarrow> AList.update (rec_session_id rc)
                     (rc\<lparr>ended_at := Some now, status := ''stopped ('' @ reason @ '')''\<rparr>)
                     (recording_history st))"
  by (simp add: force_stop_recording_def Let_def split: option.splits)

lemma rec_exec_keys: "history_keys st \<subseteq> history_keys (rec_exec st op)"
  by (cases op)
     (auto simp: history_keys_def start_recording_history stop_recording_history
        force_stop_recording_history dom_update split: option.splits)

lemma rec_run_keys: "history_keys st \<subseteq> history_keys (rec_run st ops)"
  unfolding rec_run_def
proof (induction ops arbitrary: st)
  case Nil
  show ?case by simp
next
  case (Cons op ops)
  from rec_exec_keys [of st op] Cons.IH [of "rec_exec st op"] show ?case by auto
qed

lemma folder_idle_lookup:
  "folder_idle fid st \<Longrightarrow> map_of (active_recordings st) r = Some rc \<Longrightarrow> rec_session_id rc \<noteq> fid"
  by (force simp: folder_idle_def dest!: map_of_SomeD)

lemma stop_other_folder:
  assumes "\<forall>rc. map_of (active_recordings st) r = Some rc \<longrightarrow> rec_session_id rc \<noteq> fid"
  shows "map_of (recording_history (snd (stop_recording now st r))) fid
           = map_of (recording_history st) fid"
    and "map_of (recording_history (snd (force_stop_recording now st r reason))) fid
           = map_of (recording_history st) fid"
  using assms
  by (auto simp: stop_recording_history force_stop_recording_history update_conv'
           split: option.splits)

lemma rec_exec_idle:
  assumes "folder_idle fid st" "\<not> records_folder fid op"
  shows "folder_idle fid (rec_exec st op)"
proof (cases op)
  case (Start now folder_ok s r)
  then show ?thesis using assms
    by (auto simp: folder_idle_def start_recording_def Let_def
             dest!: set_update_cases split: option.splits)
next
  case (Stop now r)
  then show ?thesis using assms
    by (auto simp: folder_idle_def stop_recording_def Let_def
             dest!: set_delete_subset split: option.splits)
next
  case (ForceStop now r reason)
  then show ?thesis using assms
    by (auto simp: folder_idle_def force_stop_recording_def Let_def
             dest!: set_delete_subset split: option.splits)
qed

lemma rec_exec_entry:
  assumes "folder_idle fid st"
  shows "map_of (recording_history (rec_exec st op)) fid = map_of (recording_history st) fid"
proof (cases op)
  case (Start now folder_ok s r)
  then show ?thesis by (simp add: start_recording_history)
next
  case (Stop now r)
  then show ?thesis using stop_other_folder(1) folder_idle_lookup [OF assms] by simp
next
  case (ForceStop now r reason)
  then show ?thesis using stop_other_folder(2) folder_idle_lookup [OF assms] by simp
qed

lemma rec_run_entry:
  "folder_idle fid st \<Longrightarrow> \<forall>op\<in>set ops. \<not> records_folder fid op
     \<Longrightarrow> map_of (recording_history (rec_run st ops)) fid = map_of (recording_history st) fid"
  unfolding rec_run_def
proof (induction ops arbitrary: st)
  case Nil
  show ?case by simp
next
  case (Cons op ops)
  have "folder_idle fid (rec_exec st op)" using Cons.prems by (simp add: rec_exec_idle)
  from Cons.IH [OF this] Cons.prems rec_exec_entry [of fid st op] show ?case by simp
qed

text \<open>
  Claim C7, as amended: no sequence of start, stop and forceStop operations removes a
  folder identifier from the history; start never changes the history; stop and forceStop
  change only the entry under the folder identifier of the recording they stop; and an
  entry stays as it is through every sequence that records no room with its folder
  identifier.  Only the purge removes history keys.
\<close>

theorem history_keys_retained:
  "(fid \<in> history_keys st \<longrightarrow> fid \<in> history_keys (rec_run st ops))
   \<and> recording_history (snd (start_recording now folder_ok s st r)) = recording_history st
   \<and> ((\<forall>rc. map_of (active_recordings st) r = Some rc \<longrightarrow> rec_session_id rc \<noteq> fid)
        \<longrightarrow> map_of (recording_history (snd (stop_recording now st r))) fid
              = map_of (recording_history st) fid
          \<and> map_of (recording_history (snd (force_stop_recording now st r reason))) fid
              = map_of (recording_history st) fid)
   \<and> (folder_idle fid st \<and> (\<forall>op\<in>set ops. \<not> records_folder fid op)
        \<longrightarrow> map_of (recording_history (rec_run st ops)) fid = map_of (recording_history st) fid)"
  using rec_run_keys [of st ops] start_recording_history [of now folder_ok s st r]
    stop_other_folder(1) [of st r fid now] stop_other_folder(2) [of st r fid now reason]
    rec_run_entry [of fid st ops]
  by blast

theorem history_keys_retained_witness:
  "''F1'' \<in> history_keys stopped_state
   \<and> ''F1'' \<in> history_keys (rec_run stopped_state [Start 20 True two_room_state ''Q'', Stop 30 ''Q''])
   \<and> folder_idle ''F1'' stopped_state
   \<and> \<not> records_folder ''F1'' (Start 20 True two_room_state ''Q'')
   \<and> \<not> records_folder ''F1'' (Stop 30 ''Q'')
   \<and> map_of (recording_history (rec_run stopped_state [Start 20 True two_room_state ''Q'', Stop 30 ''Q'']))
        ''F1'' = Some stopped_rec"
proof -
  let ?ops = "[Start 20 True two_room_state ''Q'', Stop 30 ''Q'']"
  have k: "''F1'' \<in> history_keys stopped_state"
    by (simp add: history_keys_def stopped_state_eq)
  have i: "folder_idle ''F1'' stopped_state"
    by (simp add: folder_idle_def stopped_state_eq)
  have n: "\<not> records_folder ''F1'' (Start 20 True two_room_state ''Q'')"
          "\<not> records_folder ''F1'' (Stop 30 ''Q'')"
    by (simp_all add: two_room_state_Q)
  then have all: "\<forall>op\<in>set ?ops. \<not> records_folder ''F1'' op" by simp
  have e: "map_of (recording_history stopped_state) ''F1'' = Some stopped_rec"
    by (simp add: stopped_state_eq)
  from history_keys_retained [of "''F1''" stopped_state ?ops] k i all e
  have "''F1'' \<in> history_keys (rec_run stopped_state ?ops)"
       "map_of (recording_history (rec_run stopped_state ?ops)) ''F1'' = Some stopped_rec"
    by simp_all
  then show ?thesis using k i n by simp
qed

text \<open>
  The claim as stated fails: the history is keyed by folder identifier, and a room keeps
  its folder identifier for its lifetime, so stopping a second recording of the same room
  replaces the entry of the first.
\<close>

theorem second_recording_replaces_history_entry:
  "map_of (recording_history stopped_state) ''F1'' = Some stopped_rec
   \<and> recording_history restopped_state
       = [(''F1'', stopped_rec\<lparr>started_at := 20, ended_at := Some 30\<rparr>)]
   \<and> map_of (recording_history restopped_state) ''F1'' \<noteq> Some stopped_rec"
  by (simp add: restopped_state_def rec_run_def stopped_state_eq rec_ops joined_state_room
        stopped_rec_def active_rec_def)

text \<open>The purge removes an entry older than the cutoff and keeps a younger one.\<close>

lemma purge_removes_old_entry:
  "cleanup_old_recordings (15 + 31 * 24 * 60 * 60 * 1000000) stopped_state 30
     = (1, \<lparr>active_recordings = [], recording_history = []\<rparr>)"
  by (simp add: cleanup_old_recordings_def stopped_state_eq stopped_rec_def active_rec_def Let_def)

lemma purge_keeps_recent_entry:
  "cleanup_old_recordings (15 + 24 * 60 * 60 * 1000000) stopped_state 30 = (0, stopped_state)"
  by (simp add: cleanup_old_recordings_def stopped_state_eq stopped_rec_def active_rec_def Let_def)

end
